theory Spec2Isabelle
  imports Main
begin

section \<open>JavaScript values\<close>

text \<open>
  The configuration helper \<^verbatim>\<open>src/helpers/config.js\<close> works on untyped nested data:
  the parsed JSON of the configuration files, object literals built from command-line
  flags and environment variables, and the results of lodash's \<^verbatim>\<open>_.transform\<close> and
  \<^verbatim>\<open>_.merge\<close>. The model's universe of values is the JSON values together with
  \<^verbatim>\<open>undefined\<close> and \<^verbatim>\<open>NaN\<close>:
  \<^item> \<open>JNum\<close> holds the integer-valued numbers (ports, rounds, counters); \<open>JNaN\<close> is what
    unary plus yields for an absent flag;
  \<^item> a string is a list of characters, one character per code unit;
  \<^item> an array is the list of its elements (a hole reads as \<open>JUndefined\<close>);
  \<^item> a plain object is the list of its own enumerable properties in enumeration order;
    any string can be the key of one, also \<^verbatim>\<open>__proto__\<close> (the JSON parser creates a
    property of the object's own for \<^verbatim>\<open>{"__proto__": 0}\<close>). Functions, class instances,
    prototypes other than \<^verbatim>\<open>Object.prototype\<close> and inherited properties are not part of
    the universe. A property added to an object goes to the end of the list (JavaScript
    enumerates a key that is an array index before the other keys; the keys of a
    configuration are names).
\<close>

datatype jsval =
    JUndefined
  | JNull
  | JBool bool
  | JNum int
  | JNaN
  | JStr string
  | JArr "jsval list"
  | JObj "(string \<times> jsval) list"

type_synonym jsobj = "(string \<times> jsval) list"

text \<open>\<^verbatim>\<open>Array.isArray(value)\<close> and lodash's \<^verbatim>\<open>_.isPlainObject(value)\<close>.\<close>

fun isArray :: "jsval \<Rightarrow> bool" where
  "isArray (JArr xs) = True"
| "isArray v = False"

fun isPlainObject :: "jsval \<Rightarrow> bool" where
  "isPlainObject (JObj kvs) = True"
| "isPlainObject v = False"

text \<open>Truthiness, as tested by \<^verbatim>\<open>||\<close> and \<^verbatim>\<open>if\<close>.\<close>

fun truthy :: "jsval \<Rightarrow> bool" where
  "truthy JUndefined = False"
| "truthy JNull = False"
| "truthy (JBool b) = b"
| "truthy (JNum n) = (n \<noteq> 0)"
| "truthy JNaN = False"
| "truthy (JStr s) = (s \<noteq> [])"
| "truthy (JArr xs) = True"
| "truthy (JObj kvs) = True"

text \<open>\<^verbatim>\<open>a || b\<close> on values.\<close>

definition js_or :: "jsval \<Rightarrow> jsval \<Rightarrow> jsval" where
  "js_or a b = (if truthy a then a else b)"

text \<open>
  Reading a property of a plain object (\<^verbatim>\<open>object[key]\<close>, \<open>JUndefined\<close> when the key is
  absent) and writing one (\<^verbatim>\<open>object[key] = value\<close>: an existing key keeps its place, a
  new key goes last).
\<close>

definition get_prop :: "jsobj \<Rightarrow> string \<Rightarrow> jsval" where
  "get_prop obj key = (case map_of obj key of None \<Rightarrow> JUndefined | Some v \<Rightarrow> v)"

fun set_prop :: "(string \<times> 'v) list \<Rightarrow> string \<Rightarrow> 'v \<Rightarrow> (string \<times> 'v) list" where
  "set_prop [] key v = [(key, v)]"
| "set_prop ((k, w) # kvs) key v =
     (if k = key then (k, v) # kvs else (k, w) # set_prop kvs key v)"

text \<open>The decimal rendering of an array index, as used for the keys of a string's characters.\<close>

definition digit_char :: "nat \<Rightarrow> char" where
  "digit_char d = char_of (48 + d)"

function show_nat :: "nat \<Rightarrow> string" where
  "show_nat n = (if n < 10 then [digit_char n] else show_nat (n div 10) @ [digit_char (n mod 10)])"
  by pat_completeness auto
termination
  by (relation "measure id") auto

declare show_nat.simps [simp del]

section \<open>The Empty-Value Pruner: \<^verbatim>\<open>cleanDeep\<close>\<close>

text \<open>
  The five flags of the options argument; the source defaults each of them to
  \<^verbatim>\<open>true\<close>.
\<close>

record prune_options =
  emptyArrays :: bool
  emptyObjects :: bool
  emptyStrings :: bool
  nullValues :: bool
  undefinedValues :: bool

definition default_options :: prune_options where
  "default_options =
     \<lparr>emptyArrays = True, emptyObjects = True, emptyStrings = True,
      nullValues = True, undefinedValues = True\<rparr>"

text \<open>
  The body of the callback handed to \<^verbatim>\<open>_.transform\<close>, after the recursion into the
  value: the five exclusions in the order of the source, then the append to an array
  accumulator or the assignment \<^verbatim>\<open>result[key] = value\<close> to an object accumulator.

  The accumulator is a new object that inherits from \<^verbatim>\<open>Object.prototype\<close>, and with it
  the accessor \<^verbatim>\<open>__proto__\<close>. The assignment under the key \<^verbatim>\<open>__proto__\<close> therefore calls
  the setter of that accessor and creates no property: the setter ignores a primitive
  value other than \<^verbatim>\<open>null\<close>, and makes \<^verbatim>\<open>null\<close>, an array or an object the prototype of
  the accumulator. Either way the entry is not among the own properties of the result;
  the changed prototype is not part of the model, whose objects are their own properties.
\<close>

definition iteratee :: "prune_options \<Rightarrow> jsval \<Rightarrow> jsval \<Rightarrow> string \<Rightarrow> jsval" where
  "iteratee opts result val key =
     (if emptyObjects opts \<and> isPlainObject val \<and> val = JObj [] then result
      else if emptyArrays opts \<and> isArray val \<and> val = JArr [] then result
      else if emptyStrings opts \<and> val = JStr [] then result
      else if nullValues opts \<and> val = JNull then result
      else if undefinedValues opts \<and> val = JUndefined then result
      else (case result of
              JArr acc \<Rightarrow> JArr (acc @ [val])
            | JObj acc \<Rightarrow>
                if key = ''__proto__'' then JObj acc else JObj (set_prop acc key val)
            | r \<Rightarrow> r))"

text \<open>
  \<^verbatim>\<open>_.transform(object, callback)\<close> starts from a new empty array for an array and from
  a new empty object otherwise, and calls the callback on every element (\<open>arrayEach\<close>) or
  on every own property (\<open>baseForOwn\<close>). \<open>recurse\<close> is the first statement of the
  callback: only arrays and plain objects are cleaned recursively. A string has its
  characters as own properties under their indices, and the other primitive values have
  none; a character is no container, so the loop over a string's characters
  (\<open>forOwnChars\<close>) is the same loop without the recursion.
\<close>

definition string_entries :: "string \<Rightarrow> jsobj" where
  "string_entries s = zip (map show_nat [0..<length s]) (map (\<lambda>c. JStr [c]) s)"

fun forOwnChars :: "prune_options \<Rightarrow> jsobj \<Rightarrow> jsval \<Rightarrow> jsval" where
  "forOwnChars opts [] result = result"
| "forOwnChars opts ((k, v) # kvs) result = forOwnChars opts kvs (iteratee opts result v k)"

fun cleanDeep :: "prune_options \<Rightarrow> jsval \<Rightarrow> jsval"
and arrayEach :: "prune_options \<Rightarrow> nat \<Rightarrow> jsval list \<Rightarrow> jsval \<Rightarrow> jsval"
and baseForOwn :: "prune_options \<Rightarrow> jsobj \<Rightarrow> jsval \<Rightarrow> jsval"
and recurse :: "prune_options \<Rightarrow> jsval \<Rightarrow> jsval"
where
  "cleanDeep opts (JArr xs) = arrayEach opts 0 xs (JArr [])"
| "cleanDeep opts (JObj kvs) = baseForOwn opts kvs (JObj [])"
| "cleanDeep opts (JStr s) = forOwnChars opts (string_entries s) (JObj [])"
| "cleanDeep opts v = JObj []"
| "arrayEach opts i [] result = result"
| "arrayEach opts i (x # xs) result =
     arrayEach opts (Suc i) xs (iteratee opts result (recurse opts x) (show_nat i))"
| "baseForOwn opts [] result = result"
| "baseForOwn opts ((k, v) # kvs) result =
     baseForOwn opts kvs (iteratee opts result (recurse opts v) k)"
| "recurse opts (JArr xs) = cleanDeep opts (JArr xs)"
| "recurse opts (JObj kvs) = cleanDeep opts (JObj kvs)"
| "recurse opts v = v"

text \<open>
  The specification's notion of an empty shape, written from its words: a sequence with
  zero elements, a mapping with zero keys, a string of zero length, null, undefined,
  each under its own flag.
\<close>

definition empty_shape :: "prune_options \<Rightarrow> jsval \<Rightarrow> bool" where
  "empty_shape opts v \<longleftrightarrow>
     emptyArrays opts \<and> v = JArr [] \<or>
     emptyObjects opts \<and> v = JObj [] \<or>
     emptyStrings opts \<and> v = JStr [] \<or>
     nullValues opts \<and> v = JNull \<or>
     undefinedValues opts \<and> v = JUndefined"

text \<open>
  The entries the pruner keeps of a mapping: every value pruned first (bottom-up), then
  the entries whose pruned value is an empty shape dropped, and with them the entry
  under the key \<^verbatim>\<open>__proto__\<close>; the others in their order.
\<close>

definition pruned_entries :: "prune_options \<Rightarrow> jsobj \<Rightarrow> jsobj" where
  "pruned_entries opts kvs =
     filter (\<lambda>(k, v). k \<noteq> ''__proto__'' \<and> \<not> empty_shape opts v)
       (map (\<lambda>(k, v). (k, recurse opts v)) kvs)"

text \<open>
  A mapping on which the pruner has nothing left to do: distinct keys other than
  \<^verbatim>\<open>__proto__\<close>, and no value that is an empty shape or that changes when pruned.
\<close>

definition settled :: "prune_options \<Rightarrow> jsobj \<Rightarrow> bool" where
  "settled opts obj \<longleftrightarrow>
     distinct (map fst obj) \<and>
     (\<forall>(k, v) \<in> set obj. k \<noteq> ''__proto__'' \<and> \<not> empty_shape opts v \<and> recurse opts v = v)"

text \<open>A command-line-derived source with unset flags, as \<^verbatim>\<open>Config\<close> builds it.\<close>

definition sample_cli :: jsobj where
  "sample_cli =
     [(''port'', JNum 0), (''address'', JUndefined), (''coverage'', JBool False),
      (''db'', JObj [(''database'', JNull)]), (''peers'', JObj [(''list'', JArr [])]),
      (''consoleLogLevel'', JStr ''info'')]"

section \<open>The Peer List Parser: \<^verbatim>\<open>extractPeersList\<close>\<close>

text \<open>
  \<^verbatim>\<open>String.prototype.split\<close> with a separator of one character: the segments between
  the separators, in order; a string without the separator (also the empty string) is one
  segment.
\<close>

fun split_on :: "char \<Rightarrow> string \<Rightarrow> string list" where
  "split_on sep [] = [[]]"
| "split_on sep (c # cs) =
     (if c = sep then [] # split_on sep cs
      else (case split_on sep cs of
              [] \<Rightarrow> [[c]]
            | seg # segs \<Rightarrow> (c # seg) # segs))"

text \<open>
  \<^verbatim>\<open>Array.prototype.shift\<close> on an array of strings: the first element, or
  \<^verbatim>\<open>undefined\<close> when there is none, and the array without it.
\<close>

fun shift :: "string list \<Rightarrow> jsval \<times> string list" where
  "shift [] = (JUndefined, [])"
| "shift (seg # segs) = (JStr seg, segs)"

text \<open>The callback of \<^verbatim>\<open>map\<close>: one entry of the list becomes one peer record.\<close>

definition peer_record :: "jsval \<Rightarrow> string \<Rightarrow> jsval" where
  "peer_record defaultPort entry =
     (let peer = split_on CHR '':'' entry;
          (ip, peer1) = shift peer;
          (port, peer2) = shift peer1
      in JObj [(''ip'', ip), (''wsPort'', js_or port defaultPort)])"

fun extractPeersList :: "jsval \<Rightarrow> jsval \<Rightarrow> jsval" where
  "extractPeersList (JStr peers) defaultPort =
     JArr (map (peer_record defaultPort) (split_on CHR '','' peers))"
| "extractPeersList peers defaultPort = JArr []"

section \<open>The Safety Override: \<^verbatim>\<open>validateForce\<close>\<close>

text \<open>
  What can end a call other than a returned value: \<^verbatim>\<open>process.exit(code)\<close>, a
  \<^verbatim>\<open>TypeError\<close> (a property read from \<^verbatim>\<open>undefined\<close> or \<^verbatim>\<open>null\<close>, a call of something
  that is no function), a failing \<^verbatim>\<open>require\<close>, and \<open>OutsideModel\<close> where the model
  does not follow the source: the source goes on with a value that the universe of the
  model does not hold, or lodash throws while it merges.
\<close>

datatype failure = ProcessExit nat | TypeError | RequireError | OutsideModel

text \<open>A line written by \<^verbatim>\<open>console.log\<close> or \<^verbatim>\<open>console.error\<close>: the message and the values after it.\<close>

datatype console_line = Log string "jsval list" | Error string "jsval list"

text \<open>
  Reading a property \<^verbatim>\<open>value.key\<close>, for the data keys the source reads: a
  \<^verbatim>\<open>TypeError\<close> on \<^verbatim>\<open>undefined\<close> and \<^verbatim>\<open>null\<close>, the own property of a plain object, and
  \<^verbatim>\<open>undefined\<close> on every other value.
\<close>

fun member :: "jsval \<Rightarrow> string \<Rightarrow> failure + jsval" where
  "member JUndefined key = Inl TypeError"
| "member JNull key = Inl TypeError"
| "member (JObj kvs) key = Inr (get_prop kvs key)"
| "member v key = Inr JUndefined"

text \<open>
  Strict equality \<^verbatim>\<open>===\<close>: primitive values are compared by value, \<^verbatim>\<open>NaN\<close> equals
  nothing, and an array or object equals only itself. The values compared here come from
  separately loaded files, so no two of their arrays or objects are the same object.
\<close>

fun strict_equals :: "jsval \<Rightarrow> jsval \<Rightarrow> bool" where
  "strict_equals JUndefined JUndefined = True"
| "strict_equals JNull JNull = True"
| "strict_equals (JBool a) (JBool b) = (a = b)"
| "strict_equals (JNum a) (JNum b) = (a = b)"
| "strict_equals (JStr a) (JStr b) = (a = b)"
| "strict_equals v w = False"

text \<open>\<^verbatim>\<open>Array.prototype.indexOf\<close>: the first index holding the value, or \<open>-1\<close>.\<close>

fun indexOf_from :: "int \<Rightarrow> jsval list \<Rightarrow> jsval \<Rightarrow> int" where
  "indexOf_from i [] x = - 1"
| "indexOf_from i (y # ys) x = (if strict_equals y x then i else indexOf_from (i + 1) ys x)"

text \<open>
  The call \<^verbatim>\<open>nethashes.indexOf(x)\<close>: the search of an array; a \<^verbatim>\<open>TypeError\<close> where
  \<^verbatim>\<open>nethashes\<close> has no such method; the substring search of a string is outside the model.
\<close>

fun indexOf :: "jsval \<Rightarrow> jsval \<Rightarrow> failure + int" where
  "indexOf (JArr xs) x = Inr (indexOf_from 0 xs x)"
| "indexOf (JStr s) x = Inl OutsideModel"
| "indexOf v x = Inl TypeError"

text \<open>
  \<^verbatim>\<open>validateForce(configData)\<close> mutates the configuration object in place and writes to
  the console; the model returns the console lines and the configuration afterwards.
\<close>

definition validateForce :: "jsobj \<Rightarrow> failure + (console_line list \<times> jsobj)" where
  "validateForce configData =
     (case member (get_prop configData ''forging'') ''force'' of
        Inl e \<Rightarrow> Inl e
      | Inr force \<Rightarrow>
          if truthy force then
            (case member (get_prop configData ''constants'') ''nethashes'' of
               Inl e \<Rightarrow> Inl e
             | Inr nethashes \<Rightarrow>
                 (case indexOf nethashes (get_prop configData ''nethash'') of
                    Inl e \<Rightarrow> Inl e
                  | Inr index \<Rightarrow>
                      if index \<noteq> - 1 then
                        (case get_prop configData ''forging'' of
                           JObj forging \<Rightarrow>
                             Inr ([Log ''Forced forging disabled for nethash''
                                     [get_prop configData ''nethash'']],
                                  set_prop configData ''forging''
                                    (JObj (set_prop forging ''force'' (JBool False))))
                         | other \<Rightarrow> Inr ([Log ''Forced forging disabled for nethash''
                                     [get_prop configData ''nethash'']], configData))
                      else Inr ([], configData)))
          else Inr ([], configData))"

section \<open>The Precedence Merger: lodash's \<^verbatim>\<open>_.merge\<close>\<close>

text \<open>
  \<^verbatim>\<open>_.merge(object, ...sources)\<close> merges the sources into \<^verbatim>\<open>object\<close> from left to right
  and changes \<^verbatim>\<open>object\<close> in place. The sources are JSON-like values; the destination
  can leave that universe, because lodash merges a source object into a destination
  array by writing the properties of the source on the array object itself. So the
  destination has a universe of its own, in which an array holds, next to its elements,
  the properties it has under names that are no indices (none for the array of a JSON
  file). A write beyond the end of an array leaves holes; as in the universe of the
  sources a hole reads as \<^verbatim>\<open>undefined\<close>.
\<close>

datatype dval =
    DUndefined
  | DNull
  | DBool bool
  | DNum int
  | DNaN
  | DStr string
  | DArr "dval list" "(string \<times> dval) list"
  | DObj "(string \<times> dval) list"

type_synonym dobj = "(string \<times> dval) list"

text \<open>A JSON-like value as a destination, and a destination that is JSON-like as a value.\<close>

fun embed :: "jsval \<Rightarrow> dval" where
  "embed JUndefined = DUndefined"
| "embed JNull = DNull"
| "embed (JBool b) = DBool b"
| "embed (JNum n) = DNum n"
| "embed JNaN = DNaN"
| "embed (JStr s) = DStr s"
| "embed (JArr xs) = DArr (map embed xs) []"
| "embed (JObj kvs) = DObj (map (\<lambda>(k, v). (k, embed v)) kvs)"

definition embed_props :: "jsobj \<Rightarrow> dobj" where
  "embed_props kvs = map (\<lambda>(k, v). (k, embed v)) kvs"

fun plain :: "dval \<Rightarrow> jsval option"
and plain_list :: "dval list \<Rightarrow> jsval list option"
and plain_props :: "dobj \<Rightarrow> jsobj option"
where
  "plain DUndefined = Some JUndefined"
| "plain DNull = Some JNull"
| "plain (DBool b) = Some (JBool b)"
| "plain (DNum n) = Some (JNum n)"
| "plain DNaN = Some JNaN"
| "plain (DStr s) = Some (JStr s)"
| "plain (DArr xs props) = (if props = [] then map_option JArr (plain_list xs) else None)"
| "plain (DObj kvs) = map_option JObj (plain_props kvs)"
| "plain_list [] = Some []"
| "plain_list (x # xs) =
     (case plain x of
        None \<Rightarrow> None
      | Some y \<Rightarrow> map_option (Cons y) (plain_list xs))"
| "plain_props [] = Some []"
| "plain_props ((k, v) # kvs) =
     (case plain v of
        None \<Rightarrow> None
      | Some y \<Rightarrow> map_option (Cons (k, y)) (plain_props kvs))"

text \<open>
  lodash's \<^verbatim>\<open>_.isObject\<close> on a source value: the values that \<^verbatim>\<open>baseMerge\<close> hands to
  \<^verbatim>\<open>baseMergeDeep\<close>; every other value goes to \<^verbatim>\<open>assignMergeValue\<close> as it is.
\<close>

definition isObject :: "jsval \<Rightarrow> bool" where
  "isObject v \<longleftrightarrow> isArray v \<or> isPlainObject v"

text \<open>
  The names that a plain object inherits from \<^verbatim>\<open>Object.prototype\<close>. For these
  \<^verbatim>\<open>key in object\<close> holds although the object has no such property of its own, and
  \<^verbatim>\<open>assignMergeValue\<close> assigns a source value \<^verbatim>\<open>undefined\<close> only where \<^verbatim>\<open>key in object\<close>
  does not hold.
\<close>

definition object_prototype_names :: "string list" where
  "object_prototype_names =
     [''constructor'', ''__defineGetter__'', ''__defineSetter__'', ''hasOwnProperty'',
      ''__lookupGetter__'', ''__lookupSetter__'', ''isPrototypeOf'', ''propertyIsEnumerable'',
      ''toString'', ''valueOf'', ''__proto__'', ''toLocaleString'']"

text \<open>
  The names that an array inherits: those of \<^verbatim>\<open>Array.prototype\<close> in ECMAScript 5
  together with those of \<^verbatim>\<open>Object.prototype\<close>, which every engine has, and the names
  that later editions (up to ECMAScript 2023) added to \<^verbatim>\<open>Array.prototype\<close>, which an
  array inherits or not according to the engine that runs the program.
\<close>

definition array_prototype_names :: "string list" where
  "array_prototype_names =
     [''constructor'', ''toString'', ''toLocaleString'', ''concat'', ''join'', ''pop'', ''push'',
      ''reverse'', ''shift'', ''slice'', ''sort'', ''splice'', ''unshift'', ''indexOf'',
      ''lastIndexOf'', ''every'', ''some'', ''forEach'', ''map'', ''filter'', ''reduce'',
      ''reduceRight'', ''hasOwnProperty'', ''isPrototypeOf'', ''propertyIsEnumerable'',
      ''valueOf'', ''__defineGetter__'', ''__defineSetter__'', ''__lookupGetter__'',
      ''__lookupSetter__'', ''__proto__'']"

definition later_array_prototype_names :: "string list" where
  "later_array_prototype_names =
     [''copyWithin'', ''entries'', ''fill'', ''find'', ''findIndex'', ''keys'', ''values'',
      ''includes'', ''flat'', ''flatMap'', ''at'', ''findLast'', ''findLastIndex'',
      ''toReversed'', ''toSorted'', ''toSpliced'', ''with'']"

text \<open>
  lodash's \<^verbatim>\<open>_.isArrayLikeObject\<close> on a destination plain object (one whose \<^verbatim>\<open>length\<close>
  is an integer from \<open>0\<close> to \<open>2\<^sup>5\<^sup>3 - 1\<close>), and \<^verbatim>\<open>copyArray\<close>, which \<^verbatim>\<open>baseMergeDeep\<close>
  applies to such an object when the source holds an array: a new array of that length
  with the values that the object has under the indices below it. \<^verbatim>\<open>Array(length)\<close>
  throws a \<^verbatim>\<open>RangeError\<close> for a length above \<open>2\<^sup>3\<^sup>2 - 1\<close>, and the result is then \<open>None\<close>.
\<close>

definition isArrayLikeObject :: "dobj \<Rightarrow> bool" where
  "isArrayLikeObject obj =
     (case map_of obj ''length'' of
        Some (DNum n) \<Rightarrow> 0 \<le> n \<and> n \<le> 9007199254740991
      | _ \<Rightarrow> False)"

definition copyArray :: "dobj \<Rightarrow> dval list option" where
  "copyArray obj =
     (case map_of obj ''length'' of
        Some (DNum n) \<Rightarrow>
          if 0 \<le> n \<and> n \<le> 4294967295
          then Some (map (\<lambda>i. case map_of obj (show_nat i) of None \<Rightarrow> DUndefined | Some v \<Rightarrow> v)
                       [0..<nat n])
          else None
      | _ \<Rightarrow> None)"

text \<open>
  The keys of an array object. An array index is the decimal numeral, without leading
  zeros, of a number below \<open>2\<^sup>3\<^sup>2 - 1\<close>; \<^verbatim>\<open>length\<close> is the length of the array; every
  other key is the name of an ordinary property.
\<close>

datatype array_key = Index nat | Length | Name

definition decimal_nat :: "string \<Rightarrow> nat" where
  "decimal_nat s = foldl (\<lambda>n c. 10 * n + (of_char c - 48)) 0 s"

definition array_index :: "string \<Rightarrow> nat option" where
  "array_index key =
     (if key \<noteq> [] \<and> list_all (\<lambda>c. (48 :: nat) \<le> of_char c \<and> of_char c \<le> (57 :: nat)) key \<and>
         (key = ''0'' \<or> hd key \<noteq> CHR ''0'') \<and> int (decimal_nat key) < 4294967295
      then Some (decimal_nat key) else None)"

definition array_key :: "string \<Rightarrow> array_key" where
  "array_key key =
     (if key = ''length'' then Length
      else (case array_index key of Some i \<Rightarrow> Index i | None \<Rightarrow> Name))"

text \<open>
  The assignments \<^verbatim>\<open>array[i] = value\<close> (beyond the end the array grows, with holes up to
  \<open>i\<close>) and \<^verbatim>\<open>array.length = n\<close> (the array is cut, or grows by holes).
\<close>

definition write_index :: "dval list \<Rightarrow> nat \<Rightarrow> dval \<Rightarrow> dval list" where
  "write_index arr i v =
     (if i < length arr then arr[i := v]
      else arr @ replicate (i - length arr) DUndefined @ [v])"

definition resize :: "dval list \<Rightarrow> nat \<Rightarrow> dval list" where
  "resize arr n =
     (if n \<le> length arr then take n arr else arr @ replicate (n - length arr) DUndefined)"

text \<open>
  The length that \<^verbatim>\<open>array.length = value\<close> sets for a value other than \<^verbatim>\<open>undefined\<close>:
  the value as a number when that is an integer from \<open>0\<close> to \<open>2\<^sup>3\<^sup>2 - 1\<close>. \<^verbatim>\<open>null\<close> and
  \<^verbatim>\<open>false\<close> are \<open>0\<close> as numbers, \<^verbatim>\<open>true\<close> is \<open>1\<close>, the empty string is \<open>0\<close>, and a
  string of decimal digits is the number it denotes. Every other number, and \<^verbatim>\<open>NaN\<close>,
  makes the assignment throw a \<^verbatim>\<open>RangeError\<close>. The conversion of a string in another
  notation and of an array or object to a number is not followed by the model. In all
  these cases there is no new length.
\<close>

fun new_length :: "jsval \<Rightarrow> nat option" where
  "new_length (JNum n) = (if 0 \<le> n \<and> n \<le> 4294967295 then Some (nat n) else None)"
| "new_length JNull = Some 0"
| "new_length (JBool b) = Some (if b then 1 else 0)"
| "new_length (JStr s) =
     (if list_all (\<lambda>c. (48 :: nat) \<le> of_char c \<and> of_char c \<le> (57 :: nat)) s \<and>
         int (decimal_nat s) \<le> 4294967295
      then Some (decimal_nat s) else None)"
| "new_length v = None"

text \<open>
  lodash's \<^verbatim>\<open>safeGet(object, key)\<close> reads \<^verbatim>\<open>object[key]\<close>, except that it finds nothing
  under the key \<^verbatim>\<open>__proto__\<close>, and nothing under \<^verbatim>\<open>constructor\<close> where that is a
  function. Here it reads the properties of the destination's own: what a destination
  only inherits under another key than \<^verbatim>\<open>__proto__\<close> is a function (also under
  \<^verbatim>\<open>constructor\<close>), and \<^verbatim>\<open>baseMergeDeep\<close> treats a function as it treats nothing.
\<close>

definition safeGet :: "dobj \<Rightarrow> string \<Rightarrow> dval option" where
  "safeGet obj key = (if key = ''__proto__'' then None else map_of obj key)"

text \<open>
  The merge itself, after lodash's \<^verbatim>\<open>baseMerge\<close>, \<^verbatim>\<open>baseMergeDeep\<close>, \<^verbatim>\<open>safeGet\<close>,
  \<^verbatim>\<open>assignMergeValue\<close> and \<^verbatim>\<open>baseAssignValue\<close> (version 4.17.21). \<^verbatim>\<open>baseMerge(object,
  source)\<close> visits the keys of the source in their order; the three loops are \<open>baseMerge\<close>
  for a source object merged into a destination plain object, \<open>baseMergeArr\<close> for a
  source array merged into a destination array (index by index), and \<open>baseMergeArrObj\<close>
  for a source object merged into a destination array. The result \<open>None\<close> says that
  lodash throws or that the merge leaves the universe of the model (see \<open>copyArray\<close>,
  \<open>new_length\<close> and \<open>later_array_prototype_names\<close>).

  \<open>mergeValue objValue srcValue\<close> is the value that the destination holds under a key
  after the step for the key, where \<open>objValue\<close> is what \<^verbatim>\<open>safeGet(object, key)\<close> found
  there (\<open>None\<close> when it found nothing or a function that the destination inherits):
  \<^item> for a source array: the destination array with the source merged into it; the copy,
    as an array, of a destination plain object that is array-like, with the source
    merged into it; for every other destination value a new array with the source
    merged into it;
  \<^item> for a source plain object: the destination plain object or array with the source
    merged into it; for every other destination value a new plain object with the source
    merged into it;
  \<^item> for the source value \<^verbatim>\<open>undefined\<close>: the destination value, and \<^verbatim>\<open>undefined\<close> when
    there is none;
  \<^item> every other source value itself.

  In the loop over the keys of a source object two steps do nothing at all:
  \<^item> under the key \<^verbatim>\<open>__proto__\<close> a source value that is an array or object (\<^verbatim>\<open>safeGet\<close>
    hides it from \<^verbatim>\<open>baseMergeDeep\<close>, and \<^verbatim>\<open>assignMergeValue\<close> finds \<^verbatim>\<open>'__proto__' in
    object\<close>); a primitive value under \<^verbatim>\<open>__proto__\<close> is assigned by \<^verbatim>\<open>baseAssignValue\<close>
    as a property of the destination's own;
  \<^item> a source value \<^verbatim>\<open>undefined\<close> under a key that the destination has, as its own or
    inherited (\<^verbatim>\<open>key in object\<close>).
  On a destination array the key of a source object is an index (the element is merged
  or written), \<^verbatim>\<open>length\<close> (the length is set) or a name (a property of the array).
\<close>

fun mergeValue :: "dval option \<Rightarrow> jsval \<Rightarrow> dval option"
and baseMerge :: "dobj \<Rightarrow> jsobj \<Rightarrow> dobj option"
and baseMergeArr :: "dval list \<Rightarrow> jsval list \<Rightarrow> dval list option"
and baseMergeArrObj :: "dval list \<Rightarrow> dobj \<Rightarrow> jsobj \<Rightarrow> (dval list \<times> dobj) option"
where
  "mergeValue objValue (JArr src) =
     (case objValue of
        Some (DArr arr props) \<Rightarrow> map_option (\<lambda>out. DArr out props) (baseMergeArr arr src)
      | Some (DObj obj) \<Rightarrow>
          if isArrayLikeObject obj
          then (case copyArray obj of
                  None \<Rightarrow> None
                | Some arr \<Rightarrow> map_option (\<lambda>out. DArr out []) (baseMergeArr arr src))
          else map_option (\<lambda>out. DArr out []) (baseMergeArr [] src)
      | _ \<Rightarrow> map_option (\<lambda>out. DArr out []) (baseMergeArr [] src))"
| "mergeValue objValue (JObj src) =
     (case objValue of
        Some (DObj obj) \<Rightarrow> map_option DObj (baseMerge obj src)
      | Some (DArr arr props) \<Rightarrow>
          map_option (\<lambda>(out, props'). DArr out props') (baseMergeArrObj arr props src)
      | _ \<Rightarrow> map_option DObj (baseMerge [] src))"
| "mergeValue objValue JUndefined =
     (case objValue of Some v \<Rightarrow> Some v | None \<Rightarrow> Some DUndefined)"
| "mergeValue objValue JNull = Some DNull"
| "mergeValue objValue (JBool b) = Some (DBool b)"
| "mergeValue objValue (JNum n) = Some (DNum n)"
| "mergeValue objValue JNaN = Some DNaN"
| "mergeValue objValue (JStr s) = Some (DStr s)"
| "baseMerge obj [] = Some obj"
| "baseMerge obj ((key, srcValue) # src) =
     (if key = ''__proto__'' \<and> isObject srcValue then baseMerge obj src
      else if srcValue = JUndefined \<and>
              (map_of obj key \<noteq> None \<or> key \<in> set object_prototype_names)
      then baseMerge obj src
      else (case mergeValue (safeGet obj key) srcValue of
              None \<Rightarrow> None
            | Some v \<Rightarrow> baseMerge (set_prop obj key v) src))"
| "baseMergeArr arr [] = Some arr"
| "baseMergeArr [] (srcValue # src) =
     (case mergeValue None srcValue of
        None \<Rightarrow> None
      | Some v \<Rightarrow> map_option (Cons v) (baseMergeArr [] src))"
| "baseMergeArr (objValue # arr) (srcValue # src) =
     (case mergeValue (Some objValue) srcValue of
        None \<Rightarrow> None
      | Some v \<Rightarrow> map_option (Cons v) (baseMergeArr arr src))"
| "baseMergeArrObj arr props [] = Some (arr, props)"
| "baseMergeArrObj arr props ((key, srcValue) # src) =
     (case array_key key of
        Index i \<Rightarrow>
          (case mergeValue (if i < length arr then Some (arr ! i) else None) srcValue of
             None \<Rightarrow> None
           | Some v \<Rightarrow> baseMergeArrObj (write_index arr i v) props src)
      | Length \<Rightarrow>
          if srcValue = JUndefined then baseMergeArrObj arr props src
          else (case new_length srcValue of
                  None \<Rightarrow> None
                | Some n \<Rightarrow> baseMergeArrObj (resize arr n) props src)
      | Name \<Rightarrow>
          if key = ''__proto__'' \<and> isObject srcValue then baseMergeArrObj arr props src
          else if srcValue = JUndefined \<and>
                  (map_of props key \<noteq> None \<or> key \<in> set array_prototype_names)
          then baseMergeArrObj arr props src
          else if srcValue = JUndefined \<and> key \<in> set later_array_prototype_names
          then None
          else (case mergeValue (safeGet props key) srcValue of
                  None \<Rightarrow> None
                | Some v \<Rightarrow> baseMergeArrObj arr (set_prop props key v) src))"

text \<open>
  The configuration that \<^verbatim>\<open>Config\<close> validates and returns is followed in the universe
  of the JSON-like values. \<open>baseMergeObj\<close> is one step of \<^verbatim>\<open>_.merge\<close> on such values, the
  merge of one source into a JSON-like destination where the result is JSON-like again,
  and \<open>lodash_merge\<close> is \<^verbatim>\<open>_.merge(object, ...sources)\<close> as long as every step is one.
\<close>

definition baseMergeObj :: "jsobj \<Rightarrow> jsobj \<Rightarrow> jsobj option" where
  "baseMergeObj obj src =
     (case baseMerge (embed_props obj) src of
        None \<Rightarrow> None
      | Some merged \<Rightarrow> plain_props merged)"

fun lodash_merge :: "jsobj \<Rightarrow> jsobj list \<Rightarrow> jsobj option" where
  "lodash_merge object [] = Some object"
| "lodash_merge object (source # sources) =
     (case baseMergeObj object source of
        None \<Rightarrow> None
      | Some merged \<Rightarrow> lodash_merge merged sources)"


text \<open>The peers string of the specification's example.\<close>

definition sample_peers :: string where
  "sample_peers = ''10.0.0.1:36668,10.0.0.2''"

text \<open>
  The value of \<^verbatim>\<open>configData.forging.force\<close> as a later reader finds it (\<^verbatim>\<open>undefined\<close>
  when \<^verbatim>\<open>forging\<close> is no plain object).
\<close>

definition forging_force :: "jsobj \<Rightarrow> jsval" where
  "forging_force configData =
     (case get_prop configData ''forging'' of
        JObj forging \<Rightarrow> get_prop forging ''force''
      | other \<Rightarrow> JUndefined)"

text \<open>The configuration of the specification's example of the Safety Override.\<close>

definition sample_forced :: "string \<Rightarrow> jsobj" where
  "sample_forced nethash =
     [(''forging'', JObj [(''force'', JBool True), (''secret'', JArr [])]),
      (''nethash'', JStr nethash),
      (''constants'', JObj [(''nethashes'', JArr [JStr ''H1'', JStr ''H2''])])]"

text \<open>
  Sources for the examples of the merger: defaults with two peers, a command-line source
  with one peer, and a command-line source with unset values.
\<close>

definition peer :: "string \<Rightarrow> int \<Rightarrow> jsval" where
  "peer ip wsPort = JObj [(''ip'', JStr ip), (''wsPort'', JNum wsPort)]"



definition cli_null_port :: jsobj where
  "cli_null_port =
     [(''port'', JNull), (''address'', JStr ''0.0.0.0''), (''db'', JObj [(''database'', JUndefined)])]"




section \<open>The orchestration: \<^verbatim>\<open>Config\<close>\<close>

text \<open>
  A step of the orchestration writes lines to the console and then either fails (the
  process exits, or an exception leaves \<^verbatim>\<open>Config\<close>) or goes on with a value.
  \<open>then_do\<close> runs the next step after a step that went on.
\<close>

type_synonym 'a step = "console_line list \<times> (failure + 'a)"

definition returned :: "'a \<Rightarrow> 'a step" where
  "returned x = ([], Inr x)"

definition then_do :: "'a step \<Rightarrow> ('a \<Rightarrow> 'b step) \<Rightarrow> 'b step" where
  "then_do m f =
     (case m of
        (out, Inl e) \<Rightarrow> (out, Inl e)
      | (out, Inr x) \<Rightarrow> (case f x of (out', r) \<Rightarrow> (out @ out', r)))"

text \<open>
  The conversion to a string of a template literal and of \<^verbatim>\<open>Array.prototype.join\<close>
  (numbers in decimal notation).
\<close>

fun join_with :: "string \<Rightarrow> string list \<Rightarrow> string" where
  "join_with sep [] = []"
| "join_with sep [s] = s"
| "join_with sep (s # t # ss) = s @ sep @ join_with sep (t # ss)"

fun to_string :: "jsval \<Rightarrow> string" where
  "to_string JUndefined = ''undefined''"
| "to_string JNull = ''null''"
| "to_string (JBool b) = (if b then ''true'' else ''false'')"
| "to_string (JNum n) = (if n < 0 then ''-'' @ show_nat (nat (- n)) else show_nat (nat n))"
| "to_string JNaN = ''NaN''"
| "to_string (JStr s) = s"
| "to_string (JArr xs) =
     join_with '','' (map (\<lambda>x. if x = JNull \<or> x = JUndefined then [] else to_string x) xs)"
| "to_string (JObj kvs) = ''[object Object]''"

text \<open>
  The values of the options that \<^verbatim>\<open>Config\<close> reads from commander's \<^verbatim>\<open>program\<close> object
  after parsing: \<^verbatim>\<open>undefined\<close> for an option that was not given, else what commander
  stored for it. No option declares \<^verbatim>\<open>database\<close>.
\<close>

record program_options =
  opt_config :: jsval
  opt_network :: jsval
  opt_port :: jsval
  opt_address :: jsval
  opt_peers :: jsval
  opt_log :: jsval
  opt_snapshot :: jsval
  opt_database :: jsval

text \<open>
  What \<^verbatim>\<open>Config\<close> takes from outside the file. The command-line parser, the file
  system with the JSON parser, the module loader, the random string generator and the
  schema validator are collaborators of whose code the helper knows nothing; the state of
  commander's \<^verbatim>\<open>program\<close> object has a type \<open>'p\<close> of its own.
  \<^item> \<open>parse\<close> is \<^verbatim>\<open>program.parse(process.argv)\<close>, which may print and exit;
  \<^item> \<open>load\<close> is the body of the \<^verbatim>\<open>try\<close> block of \<^verbatim>\<open>loadJSONFile\<close> on a file holding a
    JSON object: the parsed object, or, when it throws, the value of \<^verbatim>\<open>filePath\<close> at
    that moment and the message of the error;
  \<^item> \<open>require\<close> gives the object a module exports, or nothing when loading it throws;
  \<^item> \<open>string_to_number\<close> is the conversion of a string by unary plus;
  \<^item> \<open>validate\<close> is \<^verbatim>\<open>validator.validate(appConfig, configSchema.config)\<close> and
    \<open>getLastErrors\<close> what \<^verbatim>\<open>validator.getLastErrors()\<close> returns after it.
\<close>

record 'p environment =
  argv :: "string list"
  commander :: 'p
  parse :: "string list \<Rightarrow> 'p \<Rightarrow> 'p step"
  options :: "'p \<Rightarrow> program_options"
  getenv :: "string \<Rightarrow> string option"
  rootPath :: string
  load :: "jsval \<Rightarrow> (string \<times> string) + jsobj"
  require :: "string \<Rightarrow> jsobj option"
  generate :: "nat \<Rightarrow> string"
  string_to_number :: "string \<Rightarrow> jsval"
  validate :: "jsobj \<Rightarrow> bool"
  getLastErrors :: "jsobj \<Rightarrow> jsval"

text \<open>\<^verbatim>\<open>process.env.NAME\<close>: the variable's string, or \<^verbatim>\<open>undefined\<close>.\<close>

definition process_env :: "'p environment \<Rightarrow> string \<Rightarrow> jsval" where
  "process_env env name = (case getenv env name of None \<Rightarrow> JUndefined | Some s \<Rightarrow> JStr s)"

text \<open>Unary plus: the conversion of a value to a number.\<close>

fun unary_plus :: "'p environment \<Rightarrow> jsval \<Rightarrow> jsval" where
  "unary_plus env JUndefined = JNaN"
| "unary_plus env JNull = JNum 0"
| "unary_plus env (JBool b) = JNum (if b then 1 else 0)"
| "unary_plus env (JNum n) = JNum n"
| "unary_plus env JNaN = JNaN"
| "unary_plus env (JStr s) = string_to_number env s"
| "unary_plus env (JArr xs) = string_to_number env (to_string (JArr xs))"
| "unary_plus env (JObj kvs) = string_to_number env (to_string (JObj kvs))"

definition loadJSONFile :: "'p environment \<Rightarrow> jsval \<Rightarrow> jsobj step" where
  "loadJSONFile env filePath =
     (case load env filePath of
        Inr parsed \<Rightarrow> returned parsed
      | Inl (path, message) \<Rightarrow>
          ([Error (''Failed to load file: '' @ path) [], Error message []], Inl (ProcessExit 1)))"

definition require_module :: "'p environment \<Rightarrow> string \<Rightarrow> jsobj step" where
  "require_module env path =
     (case require env path of
        None \<Rightarrow> ([], Inl RequireError)
      | Some exports \<Rightarrow> returned exports)"

text \<open>The files and modules that \<^verbatim>\<open>Config\<close> loads, in the order it loads them.\<close>

record sources =
  network_id :: jsval
  genesisBlock :: jsobj
  defaultConstants :: jsobj
  customConstants :: jsobj
  defaultExceptions :: jsobj
  customExceptions :: jsobj
  defaultConfig :: jsobj
  customConfig :: jsobj

definition resolve_network :: "'p environment \<Rightarrow> program_options \<Rightarrow> jsval" where
  "resolve_network env program =
     js_or (js_or (opt_network program) (process_env env ''ADAMANT_NETWORK'')) (JStr ''devnet'')"

definition load_sources :: "'p environment \<Rightarrow> program_options \<Rightarrow> sources step" where
  "load_sources env program =
     (let net = resolve_network env program in
      then_do (loadJSONFile env (JStr (''./config/'' @ to_string net @ ''/genesisBlock.json'')))
        (\<lambda>genesis.
      then_do (require_module env ''../config/default/constants.js'') (\<lambda>dConstants.
      then_do (require_module env (''../config/'' @ to_string net @ ''/constants.js''))
        (\<lambda>cConstants.
      then_do (require_module env ''../config/default/exceptions.js'') (\<lambda>dExceptions.
      then_do (require_module env (''../config/'' @ to_string net @ ''/exceptions.js''))
        (\<lambda>cExceptions.
      then_do (loadJSONFile env (JStr ''config/default/config.json'')) (\<lambda>dConfig.
      then_do (loadJSONFile env
                 (js_or (js_or (opt_config program) (process_env env ''ADAMANT_CONFIG_FILE''))
                    (JStr (''config/'' @ to_string net @ ''/config.json''))))
        (\<lambda>cConfig.
      returned
        \<lparr>network_id = net, genesisBlock = genesis,
         defaultConstants = dConstants, customConstants = cConstants,
         defaultExceptions = dExceptions, customExceptions = cExceptions,
         defaultConfig = dConfig, customConfig = cConfig\<rparr>))))))))"

text \<open>The runtime-generated source; reading \<^verbatim>\<open>packageJson.config.minVersion\<close> may throw.\<close>

definition runtimeConfig :: "'p environment \<Rightarrow> jsobj \<Rightarrow> sources \<Rightarrow> failure + jsobj" where
  "runtimeConfig env packageJson src =
     (case member (get_prop packageJson ''config'') ''minVersion'' of
        Inl e \<Rightarrow> Inl e
      | Inr minVersion \<Rightarrow>
          Inr [(''network'', network_id src),
               (''root'', JStr (rootPath env)),
               (''nonce'', JStr (generate env 16)),
               (''version'', get_prop packageJson ''version''),
               (''minVersion'', minVersion),
               (''nethash'', get_prop (genesisBlock src) ''payloadHash'')])"

text \<open>The command-line-derived source, before it is pruned.\<close>

definition listening_port :: "'p environment \<Rightarrow> program_options \<Rightarrow> jsval" where
  "listening_port env program =
     js_or (unary_plus env (opt_port program)) (process_env env ''ADAMANT_HTTP_PORT'')"

definition commandLineConfig :: "'p environment \<Rightarrow> program_options \<Rightarrow> sources \<Rightarrow> jsobj" where
  "commandLineConfig env program src =
     [(''port'', js_or (listening_port env program) JNull),
      (''address'', opt_address program),
      (''consoleLogLevel'',
         js_or (opt_log program) (process_env env ''ADAMANT_CONSOLE_LOG_LEVEL'')),
      (''db'', JObj [(''database'', opt_database program)]),
      (''loading'', JObj [(''snapshotRound'', opt_snapshot program)]),
      (''peers'',
         JObj [(''list'',
           extractPeersList
             (js_or (opt_peers program) (process_env env ''ADAMANT_PEERS''))
             (js_or (js_or (listening_port env program) (get_prop (customConfig src) ''port''))
                (get_prop (defaultConfig src) ''port'')))]),
      (''coverage'', JBool (getenv env ''NODE_ENV'' = Some ''test''))]"

text \<open>
  The merge of the four sources into \<^verbatim>\<open>appConfig\<close>; the command-line-derived source is
  pruned first, with the default options.
\<close>

definition merge_sources :: "'p environment \<Rightarrow> jsobj \<Rightarrow> program_options \<Rightarrow> sources \<Rightarrow> jsobj step" where
  "merge_sources env packageJson program src =
     (case runtimeConfig env packageJson src of
        Inl e \<Rightarrow> ([], Inl e)
      | Inr runtime \<Rightarrow>
          (case cleanDeep default_options (JObj (commandLineConfig env program src)) of
             JObj cli \<Rightarrow>
               (case lodash_merge (defaultConfig src) [customConfig src, runtime, cli] of
                  None \<Rightarrow> ([], Inl OutsideModel)
                | Some appConfig \<Rightarrow> returned appConfig)
           | other \<Rightarrow> ([], Inl OutsideModel)))"

text \<open>
  The valid branch after validation: the three attachments, then the Safety Override.
\<close>

definition attach_and_override :: "sources \<Rightarrow> jsobj \<Rightarrow> jsobj step" where
  "attach_and_override src appConfig =
     (case lodash_merge (defaultConstants src) [customConstants src] of
        None \<Rightarrow> ([], Inl OutsideModel)
      | Some constants \<Rightarrow>
          (case lodash_merge (defaultExceptions src) [customExceptions src] of
             None \<Rightarrow> ([], Inl OutsideModel)
           | Some exceptions \<Rightarrow>
               (case validateForce
                       (set_prop
                          (set_prop
                             (set_prop appConfig ''genesisBlock'' (JObj (genesisBlock src)))
                             ''constants'' (JObj constants))
                          ''exceptions'' (JObj exceptions)) of
                  Inl e \<Rightarrow> ([], Inl e)
                | Inr (out, configData) \<Rightarrow> (out, Inr configData))))"

definition validate_config :: "'p environment \<Rightarrow> sources \<Rightarrow> jsobj \<Rightarrow> jsobj step" where
  "validate_config env src appConfig =
     (if \<not> validate env appConfig then
        ([Error ''Failed to validate config data'' [getLastErrors env appConfig]],
         Inl (ProcessExit 1))
      else attach_and_override src appConfig)"

text \<open>
  Everything after the parsing of the command line, and \<^verbatim>\<open>Config\<close> itself: the chain
  of option definitions ends in \<^verbatim>\<open>.parse(process.argv)\<close>, and the guarded statement
  parses a second time.
\<close>

definition assemble :: "'p environment \<Rightarrow> jsobj \<Rightarrow> program_options \<Rightarrow> jsobj step" where
  "assemble env packageJson program =
     then_do (load_sources env program) (\<lambda>src.
     then_do (merge_sources env packageJson program src) (\<lambda>appConfig.
     validate_config env src appConfig))"

definition Config :: "jsobj \<Rightarrow> bool \<Rightarrow> 'p environment \<Rightarrow> jsobj step" where
  "Config packageJson parseCommandLineOptions env =
     then_do (parse env (argv env) (commander env)) (\<lambda>program1.
     then_do (if parseCommandLineOptions then parse env (argv env) program1
              else returned program1) (\<lambda>program.
     assemble env packageJson (options env program)))"

text \<open>
  The steps of \<^verbatim>\<open>Config\<close> before the validation, going on with the loaded sources and
  the merged configuration.
\<close>

definition prepare :: "jsobj \<Rightarrow> bool \<Rightarrow> 'p environment \<Rightarrow> (sources \<times> jsobj) step" where
  "prepare packageJson parseCommandLineOptions env =
     then_do (parse env (argv env) (commander env)) (\<lambda>program1.
     then_do (if parseCommandLineOptions then parse env (argv env) program1
              else returned program1) (\<lambda>program.
     then_do (load_sources env (options env program)) (\<lambda>src.
     then_do (merge_sources env packageJson (options env program) src) (\<lambda>appConfig.
     returned (src, appConfig)))))"

text \<open>
  A parser for which parsing the same arguments a second time is idle: after a first
  parse that went on, the second prints nothing, goes on, and leaves the values of the
  options as they are.
\<close>

definition reparse_idle :: "'p environment \<Rightarrow> bool" where
  "reparse_idle env \<longleftrightarrow>
     (case parse env (argv env) (commander env) of
        (out, Inl e) \<Rightarrow> True
      | (out, Inr program1) \<Rightarrow>
          (\<exists>program2. parse env (argv env) program1 = ([], Inr program2) \<and>
             options env program2 = options env program1))"

text \<open>
  An environment for the examples: a reader of the \<^verbatim>\<open>--port\<close> and \<^verbatim>\<open>--network\<close> flags
  whose state is the option values themselves, a development network with three files
  and four modules, a converter of decimal strings, and a validator given as a parameter.
\<close>

definition no_options :: program_options where
  "no_options =
     \<lparr>opt_config = JUndefined, opt_network = JUndefined, opt_port = JUndefined,
      opt_address = JUndefined, opt_peers = JUndefined, opt_log = JUndefined,
      opt_snapshot = JUndefined, opt_database = JUndefined\<rparr>"

fun read_flags :: "string list \<Rightarrow> program_options \<Rightarrow> program_options" where
  "read_flags [] program = program"
| "read_flags [flag] program = program"
| "read_flags (flag # arg # rest) program =
     (if flag = ''--port'' then read_flags rest (program\<lparr>opt_port := JStr arg\<rparr>)
      else if flag = ''--network'' then read_flags rest (program\<lparr>opt_network := JStr arg\<rparr>)
      else read_flags (arg # rest) program)"

definition decimal :: "string \<Rightarrow> jsval" where
  "decimal s =
     (if list_all (\<lambda>c. (48 :: nat) \<le> of_char c \<and> of_char c \<le> (57 :: nat)) s
      then JNum (foldl (\<lambda>n c. 10 * n + (int (of_char c) - 48)) 0 s)
      else JNaN)"

definition sample_files :: "jsval \<Rightarrow> (string \<times> string) + jsobj" where
  "sample_files filePath =
     (if filePath = JStr ''./config/devnet/genesisBlock.json''
      then Inr [(''payloadHash'', JStr ''H1'')]
      else if filePath = JStr ''config/default/config.json''
      then Inr [(''port'', JNum 36666), (''forging'', JObj [(''force'', JBool True)])]
      else if filePath = JStr ''config/devnet/config.json''
      then Inr [(''port'', JNum 36667)]
      else Inl (to_string filePath, ''ENOENT''))"

definition sample_modules :: "string \<Rightarrow> jsobj option" where
  "sample_modules path =
     (if path = ''../config/default/constants.js''
      then Some [(''nethashes'', JArr [JStr ''H1'', JStr ''H2''])]
      else if path = ''../config/devnet/constants.js'' then Some []
      else if path = ''../config/default/exceptions.js'' then Some []
      else if path = ''../config/devnet/exceptions.js'' then Some []
      else None)"

definition sample_env :: "(jsobj \<Rightarrow> bool) \<Rightarrow> program_options environment" where
  "sample_env valid =
     \<lparr>argv = [''node'', ''app.js'', ''--port'', ''5000''],
      commander = no_options,
      parse = (\<lambda>args program. returned (read_flags args program)),
      options = (\<lambda>program. program),
      getenv = (\<lambda>name. None),
      rootPath = ''/opt/adamant'',
      load = sample_files,
      require = sample_modules,
      generate = (\<lambda>n. replicate n CHR ''x''),
      string_to_number = decimal,
      validate = valid,
      getLastErrors = (\<lambda>appConfig. JArr [JStr ''OBJECT_MISSING_REQUIRED_PROPERTY'']),
      \<dots> = ()\<rparr>"

definition sample_package :: jsobj where
  "sample_package = [(''version'', JStr ''0.8.0''), (''config'', JObj [(''minVersion'', JStr ''0.4.0'')])]"

text \<open>What the example environment loads, and the configuration it merges.\<close>

definition sample_sources :: sources where
  "sample_sources =
     \<lparr>network_id = JStr ''devnet'',
      genesisBlock = [(''payloadHash'', JStr ''H1'')],
      defaultConstants = [(''nethashes'', JArr [JStr ''H1'', JStr ''H2''])],
      customConstants = [], defaultExceptions = [], customExceptions = [],
      defaultConfig = [(''port'', JNum 36666), (''forging'', JObj [(''force'', JBool True)])],
      customConfig = [(''port'', JNum 36667)]\<rparr>"

definition sample_merged :: jsobj where
  "sample_merged =
     [(''port'', JNum 5000), (''forging'', JObj [(''force'', JBool True)]),
      (''network'', JStr ''devnet''), (''root'', JStr ''/opt/adamant''),
      (''nonce'', JStr ''xxxxxxxxxxxxxxxx''), (''version'', JStr ''0.8.0''),
      (''minVersion'', JStr ''0.4.0''), (''nethash'', JStr ''H1''), (''coverage'', JBool False)]"

section \<open>The pruner on a store of mutable arrays and objects\<close>

text \<open>
  In the program an array or object is a mutable cell of the heap, and a value that is
  an array or object is a reference to its cell; two references may point to the same
  cell. The store is the list of the cells allocated so far, a reference is an index into
  it, and allocation appends a cell. A reference beyond the store does not occur in a
  store that the program builds; it reads as an object without properties.
\<close>

datatype hval =
    HUndefined
  | HNull
  | HBool bool
  | HNum int
  | HNaN
  | HStr string
  | HRef nat

datatype cell = ArrCell "hval list" | ObjCell "(string \<times> hval) list"

type_synonym store = "cell list"

definition cell_at :: "store \<Rightarrow> nat \<Rightarrow> cell" where
  "cell_at h a = (if a < length h then h ! a else ObjCell [])"

text \<open>The reads \<^verbatim>\<open>array[index]\<close> and \<^verbatim>\<open>object[key]\<close> of the loops of \<^verbatim>\<open>_.transform\<close>.\<close>

definition element :: "store \<Rightarrow> nat \<Rightarrow> nat \<Rightarrow> hval" where
  "element h a i =
     (case cell_at h a of
        ArrCell xs \<Rightarrow> if i < length xs then xs ! i else HUndefined
      | ObjCell kvs \<Rightarrow> HUndefined)"

definition property :: "store \<Rightarrow> nat \<Rightarrow> string \<Rightarrow> hval" where
  "property h a key =
     (case cell_at h a of
        ObjCell kvs \<Rightarrow> (case map_of kvs key of None \<Rightarrow> HUndefined | Some v \<Rightarrow> v)
      | ArrCell xs \<Rightarrow> HUndefined)"

text \<open>Whether a value is a reference to a cell that holds \<open>c\<close>.\<close>

fun refers_to :: "store \<Rightarrow> hval \<Rightarrow> cell \<Rightarrow> bool" where
  "refers_to h (HRef b) c = (cell_at h b = c)"
| "refers_to h v c = False"

text \<open>
  The callback after the recursion, on the store: the five exclusions, then the only
  writes of the pruner, \<^verbatim>\<open>result.push(value)\<close> and \<^verbatim>\<open>result[key] = value\<close>, both to the
  cell \<open>r\<close> of the accumulator. Under the key \<^verbatim>\<open>__proto__\<close> the assignment writes no
  property (it reaches the setter that the new accumulator inherits, which at most
  changes the prototype of the accumulator), so the properties of the cell stay.
\<close>

definition iterateeH :: "prune_options \<Rightarrow> store \<Rightarrow> nat \<Rightarrow> hval \<Rightarrow> string \<Rightarrow> store" where
  "iterateeH opts h r val key =
     (if emptyObjects opts \<and> refers_to h val (ObjCell []) then h
      else if emptyArrays opts \<and> refers_to h val (ArrCell []) then h
      else if emptyStrings opts \<and> val = HStr [] then h
      else if nullValues opts \<and> val = HNull then h
      else if undefinedValues opts \<and> val = HUndefined then h
      else (case cell_at h r of
              ArrCell acc \<Rightarrow> h[r := ArrCell (acc @ [val])]
            | ObjCell acc \<Rightarrow>
                if key = ''__proto__'' then h else h[r := ObjCell (set_prop acc key val)]))"

text \<open>
  \<^verbatim>\<open>cleanDeep\<close> on the store. The accumulator of \<^verbatim>\<open>_.transform\<close> is a newly allocated
  cell; \<open>arrayEachH\<close> runs over the indices below the length that the array had when the
  loop started and \<open>baseForOwnH\<close> over the keys that the object had then, and both read
  the value from the store in every round. The recursion follows references, so on a
  store with a cycle it does not end: the first argument bounds the depth of the
  recursion, and \<open>None\<close> says that the bound was reached.
\<close>

fun forOwnCharsH :: "prune_options \<Rightarrow> store \<Rightarrow> (string \<times> hval) list \<Rightarrow> nat \<Rightarrow> store" where
  "forOwnCharsH opts h [] r = h"
| "forOwnCharsH opts h ((key, c) # rest) r = forOwnCharsH opts (iterateeH opts h r c key) rest r"

function (sequential) cleanDeepH :: "prune_options \<Rightarrow> nat \<Rightarrow> store \<Rightarrow> hval \<Rightarrow> (hval \<times> store) option"
and arrayEachH :: "prune_options \<Rightarrow> nat \<Rightarrow> store \<Rightarrow> nat \<Rightarrow> nat list \<Rightarrow> nat \<Rightarrow> store option"
and baseForOwnH :: "prune_options \<Rightarrow> nat \<Rightarrow> store \<Rightarrow> nat \<Rightarrow> string list \<Rightarrow> nat \<Rightarrow> store option"
and recurseH :: "prune_options \<Rightarrow> nat \<Rightarrow> store \<Rightarrow> hval \<Rightarrow> (hval \<times> store) option"
where
  "cleanDeepH opts 0 h v = None"
| "cleanDeepH opts (Suc n) h (HRef a) =
     (case cell_at h a of
        ArrCell xs \<Rightarrow>
          map_option (Pair (HRef (length h)))
            (arrayEachH opts n (h @ [ArrCell []]) a [0..<length xs] (length h))
      | ObjCell kvs \<Rightarrow>
          map_option (Pair (HRef (length h)))
            (baseForOwnH opts n (h @ [ObjCell []]) a (map fst kvs) (length h)))"
| "cleanDeepH opts (Suc n) h (HStr s) =
     Some (HRef (length h),
           forOwnCharsH opts (h @ [ObjCell []])
             (zip (map show_nat [0..<length s]) (map (\<lambda>c. HStr [c]) s)) (length h))"
| "cleanDeepH opts (Suc n) h v = Some (HRef (length h), h @ [ObjCell []])"
| "arrayEachH opts n h a [] r = Some h"
| "arrayEachH opts n h a (i # indices) r =
     (case recurseH opts n h (element h a i) of
        None \<Rightarrow> None
      | Some (v, h') \<Rightarrow> arrayEachH opts n (iterateeH opts h' r v (show_nat i)) a indices r)"
| "baseForOwnH opts n h a [] r = Some h"
| "baseForOwnH opts n h a (key # keys) r =
     (case recurseH opts n h (property h a key) of
        None \<Rightarrow> None
      | Some (v, h') \<Rightarrow> baseForOwnH opts n (iterateeH opts h' r v key) a keys r)"
| "recurseH opts n h (HRef a) = cleanDeepH opts n h (HRef a)"
| "recurseH opts n h v = Some (v, h)"
  by pat_completeness auto
termination
  by (relation "inv_image (less_than <*lex*> less_than)
        (\<lambda>x. case x of
           Inl (Inl (opts, n, h, v)) \<Rightarrow> (n, 0)
         | Inl (Inr (opts, n, h, a, indices, r)) \<Rightarrow> (n, 2 + length indices)
         | Inr (Inl (opts, n, h, a, keys, r)) \<Rightarrow> (n, 2 + length keys)
         | Inr (Inr (opts, n, h, v)) \<Rightarrow> (n, 1))")
    auto

text \<open>
  The cells of \<open>h\<close> are all there in \<open>h'\<close> and hold what they held: whatever was allocated
  when \<open>h\<close> was the store has not been written to.
\<close>

definition unchanged :: "store \<Rightarrow> store \<Rightarrow> bool" where
  "unchanged h h' \<longleftrightarrow> length h \<le> length h' \<and> take (length h) h' = h"

text \<open>
  With the bound \<open>n\<close>, whenever the pruner returns, it returns a reference to the cell it
  allocated first, and it has not written to any cell that existed at the call.
\<close>

definition returns_fresh :: "prune_options \<Rightarrow> nat \<Rightarrow> bool" where
  "returns_fresh opts n \<longleftrightarrow>
     (\<forall>h v v' h'. cleanDeepH opts n h v = Some (v', h') \<longrightarrow>
        v' = HRef (length h) \<and> length h < length h' \<and> unchanged h h')"

text \<open>
  The value that a store value stands for, when all the cells it reaches have their
  addresses in \<open>A\<close>: a primitive value for itself, and a reference for the array or plain
  object (with distinct keys) whose cell it points to, element by element.
\<close>

fun represents :: "nat set \<Rightarrow> store \<Rightarrow> hval \<Rightarrow> jsval \<Rightarrow> bool" where
  "represents A h v JUndefined = (v = HUndefined)"
| "represents A h v JNull = (v = HNull)"
| "represents A h v (JBool b) = (v = HBool b)"
| "represents A h v (JNum n) = (v = HNum n)"
| "represents A h v JNaN = (v = HNaN)"
| "represents A h v (JStr s) = (v = HStr s)"
| "represents A h v (JArr ys) =
     (case v of
        HRef a \<Rightarrow>
          a \<in> A \<and> a < length h \<and>
          (case h ! a of
             ArrCell xs \<Rightarrow> list_all2 (represents A h) xs ys
           | ObjCell kvs \<Rightarrow> False)
      | other \<Rightarrow> False)"
| "represents A h v (JObj kvs') =
     (case v of
        HRef a \<Rightarrow>
          a \<in> A \<and> a < length h \<and>
          (case h ! a of
             ObjCell kvs \<Rightarrow>
               distinct (map fst kvs) \<and> map fst kvs = map fst kvs' \<and>
               list_all2 (represents A h) (map snd kvs) (map snd kvs')
           | ArrCell xs \<Rightarrow> False)
      | other \<Rightarrow> False)"

text \<open>
  On the store \<open>h\<close> the recursion of the callback returns for \<open>v\<close> with every large enough
  bound, has then not written to a cell of \<open>h\<close>, and its result stands, in cells allocated
  by the call only, for the pruned value of \<open>x\<close>.
\<close>

definition prunes :: "prune_options \<Rightarrow> store \<Rightarrow> hval \<Rightarrow> jsval \<Rightarrow> bool" where
  "prunes opts h v x \<longleftrightarrow>
     (\<exists>n v' h'. (\<forall>m \<ge> n. recurseH opts m h v = Some (v', h')) \<and> unchanged h h' \<and>
        represents {length h..<length h'} h' v' (recurse opts x))"

text \<open>
  A store with a command-line-derived source in which one object is shared by a property
  and an array element, and the value it stands for.
\<close>

definition sample_store :: store where
  "sample_store =
     [ObjCell [(''port'', HNull), (''db'', HRef 1), (''peers'', HRef 2), (''coverage'', HBool False)],
      ObjCell [(''database'', HUndefined)],
      ArrCell [HNum 0, HRef 1, HStr ''x'']]"

definition sample_value :: jsval where
  "sample_value =
     JObj [(''port'', JNull), (''db'', JObj [(''database'', JUndefined)]),
           (''peers'', JArr [JNum 0, JObj [(''database'', JUndefined)], JStr ''x'']),
           (''coverage'', JBool False)]"

section \<open>Properties of the pruner\<close>

lemma iteratee_arr:
  "iteratee opts (JArr acc) v k = (if empty_shape opts v then JArr acc else JArr (acc @ [v]))"
  by (auto simp: iteratee_def empty_shape_def)

lemma iteratee_obj:
  "iteratee opts (JObj acc) v k =
     (if k = ''__proto__'' \<or> empty_shape opts v then JObj acc else JObj (set_prop acc k v))"
  by (auto simp: iteratee_def empty_shape_def)

lemma arrayEach_eq:
  "arrayEach opts i xs (JArr acc) =
     JArr (acc @ filter (\<lambda>v. \<not> empty_shape opts v) (map (recurse opts) xs))"
  by (induction xs arbitrary: i acc) (simp_all add: iteratee_arr)

lemma set_prop_fresh: "key \<notin> fst ` set obj \<Longrightarrow> set_prop obj key v = obj @ [(key, v)]"
  by (induction obj) auto

lemma set_prop_keys: "fst ` set (set_prop obj key v) = insert key (fst ` set obj)"
  by (induction obj key v rule: set_prop.induct) auto

lemma map_of_set_prop: "map_of (set_prop obj key v) = (map_of obj)(key \<mapsto> v)"
  by (induction obj) (auto simp: fun_eq_iff)

lemma distinct_set_prop: "distinct (map fst obj) \<Longrightarrow> distinct (map fst (set_prop obj key v))"
  by (induction obj key v rule: set_prop.induct) (auto simp: set_prop_keys)

lemma set_set_prop: "set (set_prop obj key v) \<subseteq> insert (key, v) (set obj)"
  by (induction obj key v rule: set_prop.induct) auto

lemma baseForOwn_distinct:
  "distinct (map fst acc @ map fst kvs) \<Longrightarrow>
   baseForOwn opts kvs (JObj acc) = JObj (acc @ pruned_entries opts kvs)"
proof (induction kvs arbitrary: acc)
  case Nil
  then show ?case by (simp add: pruned_entries_def)
next
  case (Cons kv kvs)
  obtain k v where kv: "kv = (k, v)" by (cases kv)
  from Cons.prems kv have fresh: "k \<notin> fst ` set acc" and
    d1: "distinct (map fst acc @ map fst kvs)" and
    d2: "distinct (map fst (acc @ [(k, recurse opts v)]) @ map fst kvs)"
    by auto
  show ?case
    using Cons.IH [OF d1] Cons.IH [OF d2] fresh
    by (simp add: kv iteratee_obj set_prop_fresh pruned_entries_def)
qed

lemma settled_set_prop:
  "settled opts obj \<Longrightarrow> key \<noteq> ''__proto__'' \<Longrightarrow> \<not> empty_shape opts v \<Longrightarrow>
   recurse opts v = v \<Longrightarrow> settled opts (set_prop obj key v)"
  unfolding settled_def using set_set_prop [of obj key v]
  by (auto simp: distinct_set_prop)

lemma baseForOwn_settled:
  "settled opts acc \<Longrightarrow> \<forall>(k, v) \<in> set kvs. recurse opts (recurse opts v) = recurse opts v \<Longrightarrow>
   \<exists>acc'. baseForOwn opts kvs (JObj acc) = JObj acc' \<and> settled opts acc'"
proof (induction kvs arbitrary: acc)
  case Nil
  then show ?case by simp
next
  case (Cons kv kvs)
  obtain k v where kv: "kv = (k, v)" by (cases kv)
  show ?case
  proof (cases "k = ''__proto__'' \<or> empty_shape opts (recurse opts v)")
    case True
    then show ?thesis using Cons by (simp add: kv iteratee_obj)
  next
    case False
    with Cons.prems have "settled opts (set_prop acc k (recurse opts v))"
      by (intro settled_set_prop) (auto simp: kv)
    from Cons.IH [OF this] Cons.prems(2) False show ?thesis
      by (simp add: kv iteratee_obj)
  qed
qed

lemma baseForOwn_fixed:
  "settled opts (acc @ kvs) \<Longrightarrow> baseForOwn opts kvs (JObj acc) = JObj (acc @ kvs)"
proof -
  assume s: "settled opts (acc @ kvs)"
  then have "distinct (map fst acc @ map fst kvs)" by (simp add: settled_def)
  then have "baseForOwn opts kvs (JObj acc) = JObj (acc @ pruned_entries opts kvs)"
    by (rule baseForOwn_distinct)
  moreover have "pruned_entries opts kvs = kvs"
  proof -
    have a: "\<forall>(k, v) \<in> set kvs. k \<noteq> ''__proto__'' \<and> \<not> empty_shape opts v \<and> recurse opts v = v"
      using s by (auto simp: settled_def)
    then have "map (\<lambda>(k, v). (k, recurse opts v)) kvs = kvs"
      by (induction kvs) auto
    with a show ?thesis by (auto simp: pruned_entries_def intro: filter_True)
  qed
  ultimately show ?thesis by simp
qed

lemma forOwnChars_baseForOwn:
  "\<forall>(k, v) \<in> set kvs. recurse opts v = v \<Longrightarrow>
   forOwnChars opts kvs result = baseForOwn opts kvs result"
  by (induction kvs arbitrary: result) auto

lemma string_entries_plain: "\<forall>(k, v) \<in> set (string_entries s). recurse opts v = v"
  by (auto simp: string_entries_def dest!: set_zip_rightD)

lemma baseForOwn_obj: "\<exists>acc'. baseForOwn opts kvs (JObj acc) = JObj acc'"
  by (induction kvs arbitrary: acc) (auto simp: iteratee_obj)

lemma recurse_idem:
  "cleanDeep opts (cleanDeep opts v) = cleanDeep opts v \<Longrightarrow>
   recurse opts (recurse opts v) = recurse opts v"
proof (cases v)
  case (JArr xs)
  assume "cleanDeep opts (cleanDeep opts v) = cleanDeep opts v"
  with JArr show ?thesis by (simp add: arrayEach_eq)
next
  case (JObj kvs)
  assume a: "cleanDeep opts (cleanDeep opts v) = cleanDeep opts v"
  obtain r where "cleanDeep opts v = JObj r"
    using baseForOwn_obj [of opts kvs "[]"] JObj by auto
  with a JObj show ?thesis by simp
qed simp_all

lemma settled_Nil: "settled opts []"
  by (simp add: settled_def)

lemma cleanDeep_settled_fixed: "settled opts r \<Longrightarrow> baseForOwn opts r (JObj []) = JObj r"
  using baseForOwn_fixed [of opts "[]" r] by simp

text \<open>
  Claim C7. Pruning is idempotent: for every input value and every setting of the five
  flags, pruning the pruned value gives the pruned value again.
\<close>

theorem cleanDeep_idempotent: "cleanDeep opts (cleanDeep opts x) = cleanDeep opts x"
proof (induction x)
  case (JArr xs)
  then have "\<forall>v \<in> set xs. recurse opts (recurse opts v) = recurse opts v"
    by (simp add: recurse_idem)
  then have "map (recurse opts) (filter (\<lambda>v. \<not> empty_shape opts v) (map (recurse opts) xs)) =
      filter (\<lambda>v. \<not> empty_shape opts v) (map (recurse opts) xs)"
    by (induction xs) auto
  then show ?case by (simp add: arrayEach_eq)
next
  case (JObj kvs)
  have "\<forall>(k, v) \<in> set kvs. recurse opts (recurse opts v) = recurse opts v"
  proof (clarify)
    fix k v assume "(k, v) \<in> set kvs"
    then have "cleanDeep opts (cleanDeep opts v) = cleanDeep opts v"
      by (rule JObj.IH) simp
    then show "recurse opts (recurse opts v) = recurse opts v" by (rule recurse_idem)
  qed
  with baseForOwn_settled [OF settled_Nil] obtain r where
    "baseForOwn opts kvs (JObj []) = JObj r" and "settled opts r" by blast
  then show ?case by (simp add: cleanDeep_settled_fixed)
next
  case (JStr s)
  have "\<forall>(k, v) \<in> set (string_entries s). recurse opts (recurse opts v) = recurse opts v"
    using string_entries_plain [of s opts] by auto
  with baseForOwn_settled [OF settled_Nil] obtain r where
    "baseForOwn opts (string_entries s) (JObj []) = JObj r" and "settled opts r" by blast
  then show ?case
    by (simp add: cleanDeep_settled_fixed forOwnChars_baseForOwn [OF string_entries_plain])
qed (simp_all add: cleanDeep_settled_fixed settled_Nil)

lemma pruned_entries_absent:
  "k \<notin> fst ` set kvs \<Longrightarrow> map_of (pruned_entries opts kvs) k = None"
  by (induction kvs) (auto simp: pruned_entries_def)

lemma map_of_pruned_entries:
  "distinct (map fst kvs) \<Longrightarrow>
   map_of (pruned_entries opts kvs) k =
     (case map_of kvs k of
        None \<Rightarrow> None
      | Some v \<Rightarrow>
          if k = ''__proto__'' \<or> empty_shape opts (recurse opts v) then None
          else Some (recurse opts v))"
proof (induction kvs)
  case Nil
  then show ?case by (simp add: pruned_entries_def)
next
  case (Cons kv kvs)
  obtain k' v' where kv: "kv = (k', v')" by (cases kv)
  from Cons.prems kv have fresh: "k' \<notin> fst ` set kvs" and d: "distinct (map fst kvs)"
    by auto
  have step: "pruned_entries opts ((k', v') # kvs) =
      (if k' = ''__proto__'' \<or> empty_shape opts (recurse opts v') then pruned_entries opts kvs
       else (k', recurse opts v') # pruned_entries opts kvs)"
    by (simp add: pruned_entries_def)
  show ?case
    using Cons.IH [OF d] pruned_entries_absent [OF fresh, of opts]
    by (simp add: step kv)
qed

lemma recurse_scalar: "\<not> isArray v \<Longrightarrow> \<not> isPlainObject v \<Longrightarrow> recurse opts v = v"
  by (cases v) simp_all

lemma recurse_container: "isArray v \<or> isPlainObject v \<Longrightarrow> recurse opts v = cleanDeep opts v"
  by (cases v) simp_all

lemma zero_false_kept:
  "v = JNum 0 \<or> v = JBool False \<Longrightarrow> recurse opts v = v \<and> \<not> empty_shape opts v"
  by (auto simp: empty_shape_def)

lemma cleanDeep_entries:
  assumes "distinct (map fst kvs)"
  shows "cleanDeep opts (JObj kvs) = JObj (pruned_entries opts kvs)"
  using baseForOwn_distinct [of "[]" kvs opts] assms by simp

lemma cleanDeep_keeps_zero_and_false:
  assumes "distinct (map fst kvs)" and "map_of kvs k = Some v" and "v = JNum 0 \<or> v = JBool False"
    and "k \<noteq> ''__proto__''"
  shows "map_of (pruned_entries opts kvs) k = Some v"
proof -
  from assms(3) have "recurse opts v = v \<and> \<not> empty_shape opts v" by (rule zero_false_kept)
  with assms(2,4) show ?thesis by (simp add: map_of_pruned_entries [OF assms(1)])
qed

lemma cleanDeep_elements:
  "cleanDeep opts (JArr xs) = JArr (filter (\<lambda>v. \<not> empty_shape opts v) (map (recurse opts) xs))"
  by (simp add: arrayEach_eq)

text \<open>
  Claim C2, against the code. A mapping can hold a property of its own under the key
  \<^verbatim>\<open>__proto__\<close> (the JSON parser creates one for \<^verbatim>\<open>{"__proto__": 0}\<close>). The pruner
  loses the entry whatever its value is, also the values \<open>0\<close> and \<open>false\<close>, which are
  none of the five empty shapes, under every setting of the flags; the other entries of
  the mapping are kept.
\<close>

theorem cleanDeep_loses_proto_key:
  "cleanDeep opts (JObj [(''__proto__'', JNum 0)]) = JObj [] \<and>
   cleanDeep opts (JObj [(''__proto__'', JBool False), (''port'', JNum 0)]) =
     JObj [(''port'', JNum 0)] \<and>
   cleanDeep opts (JObj [(''__proto__'', v)]) = JObj []"
  by (simp add: iteratee_def)
section \<open>Properties of the peer list parser\<close>

lemma split_on_nonempty: "split_on sep s \<noteq> []"
  by (induction s) (auto split: list.splits)

lemma peer_record_cases:
  "peer_record defaultPort entry =
     (case split_on CHR '':'' entry of
        [] \<Rightarrow> JObj [(''ip'', JUndefined), (''wsPort'', defaultPort)]
      | [host] \<Rightarrow> JObj [(''ip'', JStr host), (''wsPort'', defaultPort)]
      | host # port # rest \<Rightarrow>
          JObj [(''ip'', JStr host), (''wsPort'', if port = [] then defaultPort else JStr port)])"
  by (auto simp: peer_record_def js_or_def split: list.splits)

lemma split_sample: "split_on CHR '','' sample_peers = [''10.0.0.1:36668'', ''10.0.0.2'']"
  by (simp add: sample_peers_def)

lemma split_sample1: "split_on CHR '':'' ''10.0.0.1:36668'' = [''10.0.0.1'', ''36668'']"
  by simp

lemma split_sample2: "split_on CHR '':'' ''10.0.0.2'' = [''10.0.0.2'']"
  by simp

text \<open>
  Claim C3, amended. Given a string, the parser splits it on \<open>,\<close> and every entry on
  \<open>:\<close>; the first segment is the host, and the second segment, when there is one and it
  is not empty, is the port, as the string it is; otherwise the port is the default port
  of the caller. On \<open>10.0.0.1:36668,10.0.0.2\<close> with default port \<open>36666\<close> the result is
  the host \<open>10.0.0.1\<close> with the port string \<open>36668\<close>, then the host \<open>10.0.0.2\<close> with
  the number \<open>36666\<close>. Every input that is no string gives the empty sequence.
\<close>

theorem extractPeersList_parses:
  "extractPeersList (JStr peers) defaultPort =
     JArr (map (\<lambda>entry. case split_on CHR '':'' entry of
                   [] \<Rightarrow> JObj [(''ip'', JUndefined), (''wsPort'', defaultPort)]
                 | [host] \<Rightarrow> JObj [(''ip'', JStr host), (''wsPort'', defaultPort)]
                 | host # port # rest \<Rightarrow>
                     JObj [(''ip'', JStr host),
                           (''wsPort'', if port = [] then defaultPort else JStr port)])
            (split_on CHR '','' peers)) \<and>
   split_on CHR '':'' entry \<noteq> [] \<and>
   extractPeersList (JStr sample_peers) (JNum 36666) =
     JArr [JObj [(''ip'', JStr ''10.0.0.1''), (''wsPort'', JStr ''36668'')],
           JObj [(''ip'', JStr ''10.0.0.2''), (''wsPort'', JNum 36666)]] \<and>
   extractPeersList JUndefined defaultPort = JArr [] \<and>
   extractPeersList JNull defaultPort = JArr [] \<and>
   extractPeersList (JBool b) defaultPort = JArr [] \<and>
   extractPeersList (JNum n) defaultPort = JArr [] \<and>
   extractPeersList JNaN defaultPort = JArr [] \<and>
   extractPeersList (JArr xs) defaultPort = JArr [] \<and>
   extractPeersList (JObj kvs) defaultPort = JArr []"
proof -
  have "map (peer_record defaultPort) (split_on CHR '','' peers) =
      map (\<lambda>entry. case split_on CHR '':'' entry of
                   [] \<Rightarrow> JObj [(''ip'', JUndefined), (''wsPort'', defaultPort)]
                 | [host] \<Rightarrow> JObj [(''ip'', JStr host), (''wsPort'', defaultPort)]
                 | host # port # rest \<Rightarrow>
                     JObj [(''ip'', JStr host),
                           (''wsPort'', if port = [] then defaultPort else JStr port)])
            (split_on CHR '','' peers)"
    by (rule map_cong) (simp_all add: peer_record_cases)
  moreover have "extractPeersList (JStr sample_peers) (JNum 36666) =
     JArr [JObj [(''ip'', JStr ''10.0.0.1''), (''wsPort'', JStr ''36668'')],
           JObj [(''ip'', JStr ''10.0.0.2''), (''wsPort'', JNum 36666)]]"
    by (simp add: split_sample peer_record_cases split_sample1 split_sample2 del: split_on.simps)
  ultimately show ?thesis by (simp add: split_on_nonempty del: split_on.simps)
qed

text \<open>
  The example of claim C3 as the specification writes it, with the number \<open>36668\<close> as the
  port of the first peer, is not what the parser returns.
\<close>

theorem extractPeersList_port_is_a_string:
  "extractPeersList (JStr sample_peers) (JNum 36666) \<noteq>
     JArr [JObj [(''ip'', JStr ''10.0.0.1''), (''wsPort'', JNum 36668)],
           JObj [(''ip'', JStr ''10.0.0.2''), (''wsPort'', JNum 36666)]]"
  by (simp add: split_sample peer_record_cases split_sample1 split_sample2 del: split_on.simps)

section \<open>Properties of the Safety Override\<close>

lemma get_prop_set_prop:
  "get_prop (set_prop obj key v) k = (if k = key then v else get_prop obj k)"
  by (simp add: get_prop_def map_of_set_prop)

lemma indexOf_from_lower: "0 \<le> i \<Longrightarrow> indexOf_from i xs x = - 1 \<or> i \<le> indexOf_from i xs x"
proof (induction xs arbitrary: i)
  case Nil
  then show ?case by simp
next
  case (Cons y ys)
  from Cons.IH [of "i + 1"] Cons.prems show ?case by auto
qed

lemma indexOf_from_found:
  "0 \<le> i \<Longrightarrow> indexOf_from i xs x \<noteq> - 1 \<longleftrightarrow> (\<exists>h \<in> set xs. strict_equals h x)"
proof (induction xs arbitrary: i)
  case Nil
  then show ?case by simp
next
  case (Cons y ys)
  from Cons.IH [of "i + 1"] Cons.prems show ?case by auto
qed

lemma member_truthy_obj:
  "member v key = Inr w \<Longrightarrow> truthy w \<Longrightarrow> \<exists>obj. v = JObj obj \<and> w = get_prop obj key"
  by (cases v) auto

text \<open>
  Claim C4. On a configuration whose \<open>forging\<close> is a mapping and whose
  \<open>constants.nethashes\<close> is a sequence, the Safety Override sets \<open>forging.force\<close> to
  \<open>false\<close> (and reports the nethash) exactly when \<open>forging.force\<close> is true, in the sense
  of the source's \<^verbatim>\<open>if\<close>, and the configuration's \<open>nethash\<close> is an element of
  \<open>constants.nethashes\<close>; otherwise it leaves the configuration unchanged. Whenever it
  returns at all, it left the configuration unchanged or turned a true \<open>forging.force\<close>
  into \<open>false\<close>: it never flips \<open>forging.force\<close> from false to true.
\<close>

theorem validateForce_override:
  "(get_prop configData ''forging'' = JObj forging \<and>
    get_prop configData ''constants'' = JObj constants \<and>
    get_prop constants ''nethashes'' = JArr nethashes \<longrightarrow>
    validateForce configData =
      Inr (if truthy (get_prop forging ''force'') \<and>
              (\<exists>h \<in> set nethashes. strict_equals h (get_prop configData ''nethash''))
           then ([Log ''Forced forging disabled for nethash'' [get_prop configData ''nethash'']],
                 set_prop configData ''forging''
                   (JObj (set_prop forging ''force'' (JBool False))))
           else ([], configData))) \<and>
   (validateForce configData = Inr (out, configData') \<longrightarrow>
      configData' = configData \<or>
      truthy (forging_force configData) \<and> forging_force configData' = JBool False)"
proof (intro conjI impI)
  assume "get_prop configData ''forging'' = JObj forging \<and>
    get_prop configData ''constants'' = JObj constants \<and>
    get_prop constants ''nethashes'' = JArr nethashes"
  then show "validateForce configData =
      Inr (if truthy (get_prop forging ''force'') \<and>
              (\<exists>h \<in> set nethashes. strict_equals h (get_prop configData ''nethash''))
           then ([Log ''Forced forging disabled for nethash'' [get_prop configData ''nethash'']],
                 set_prop configData ''forging''
                   (JObj (set_prop forging ''force'' (JBool False))))
           else ([], configData))"
    using indexOf_from_found [of 0 nethashes "get_prop configData ''nethash''"]
    by (simp add: validateForce_def)
next
  assume r: "validateForce configData = Inr (out, configData')"
  show "configData' = configData \<or>
      truthy (forging_force configData) \<and> forging_force configData' = JBool False"
  proof (cases "configData' = configData")
    case True
    then show ?thesis by simp
  next
    case False
    from r obtain force where m: "member (get_prop configData ''forging'') ''force'' = Inr force"
      by (auto simp: validateForce_def split: sum.splits)
    from r False m have t: "truthy force"
      by (auto simp: validateForce_def split: if_splits)
    from member_truthy_obj [OF m t] obtain forging where
      f: "get_prop configData ''forging'' = JObj forging" and fo: "force = get_prop forging ''force''"
      by blast
    from r False m t f have "configData' =
        set_prop configData ''forging'' (JObj (set_prop forging ''force'' (JBool False)))"
      by (auto simp: validateForce_def split: sum.splits if_splits)
    with f fo t show ?thesis
      by (simp add: forging_force_def get_prop_set_prop)
  qed
qed

theorem validateForce_override_witness:
  "get_prop (sample_forced ''H1'') ''forging'' = JObj [(''force'', JBool True), (''secret'', JArr [])] \<and>
   get_prop (sample_forced ''H1'') ''constants'' = JObj [(''nethashes'', JArr [JStr ''H1'', JStr ''H2''])] \<and>
   get_prop [(''nethashes'', JArr [JStr ''H1'', JStr ''H2''])] ''nethashes'' = JArr [JStr ''H1'', JStr ''H2''] \<and>
   validateForce (sample_forced ''H1'') =
     Inr ([Log ''Forced forging disabled for nethash'' [JStr ''H1'']],
          [(''forging'', JObj [(''force'', JBool False), (''secret'', JArr [])]),
           (''nethash'', JStr ''H1''),
           (''constants'', JObj [(''nethashes'', JArr [JStr ''H1'', JStr ''H2''])])]) \<and>
   truthy (forging_force (sample_forced ''H1'')) \<and>
   forging_force
     [(''forging'', JObj [(''force'', JBool False), (''secret'', JArr [])]),
      (''nethash'', JStr ''H1''),
      (''constants'', JObj [(''nethashes'', JArr [JStr ''H1'', JStr ''H2''])])] = JBool False"
  using validateForce_override [of "sample_forced ''H1''" "[(''force'', JBool True), (''secret'', JArr [])]"
      "[(''nethashes'', JArr [JStr ''H1'', JStr ''H2''])]" "[JStr ''H1'', JStr ''H2'']"]
  by (simp add: sample_forced_def get_prop_def forging_force_def)

section \<open>Properties of the precedence merger\<close>

lemma plain_list_map:
  "\<forall>x \<in> set xs. plain (embed x) = Some x \<Longrightarrow> plain_list (map embed xs) = Some xs"
  by (induction xs) auto

lemma plain_props_map:
  "\<forall>(k, v) \<in> set kvs. plain (embed v) = Some v \<Longrightarrow>
   plain_props (map (\<lambda>(k, v). (k, embed v)) kvs) = Some kvs"
  by (induction kvs) auto

lemma plain_embed: "plain (embed v) = Some v"
proof (induction v)
  case (JArr xs)
  then show ?case by (simp add: plain_list_map)
next
  case (JObj kvs)
  have "\<forall>(k, v) \<in> set kvs. plain (embed v) = Some v"
  proof (clarify)
    fix k v assume "(k, v) \<in> set kvs"
    then show "plain (embed v) = Some v" by (intro JObj.IH [of "(k, v)"]) simp_all
  qed
  then have "plain_props (map (\<lambda>(k, v). (k, embed v)) kvs) = Some kvs"
    by (rule plain_props_map)
  then show ?case by simp
qed simp_all

lemma plain_props_embed: "plain_props (embed_props kvs) = Some kvs"
  unfolding embed_props_def by (rule plain_props_map) (simp add: plain_embed split: prod.splits)

lemma embed_inject: "embed a = embed b \<Longrightarrow> a = b"
  by (metis option.inject plain_embed)

lemma plain_is_embed:
  "plain d = Some v \<Longrightarrow> d = embed v"
  "plain_list ds = Some vs \<Longrightarrow> ds = map embed vs"
  "plain_props dkvs = Some kvs \<Longrightarrow> dkvs = embed_props kvs"
proof (induction d and ds and dkvs arbitrary: v and vs and kvs rule: plain_plain_list_plain_props.induct)
  case (7 xs props)
  then show ?case by (auto split: if_splits)
next
  case (8 kvs')
  then show ?case by (auto simp: embed_props_def)
next
  case (10 x xs)
  then show ?case by (auto split: option.splits)
next
  case (12 k v kvs')
  then show ?case by (auto simp: embed_props_def split: option.splits)
qed (auto simp: embed_props_def)

lemma map_of_embed_props: "map_of (embed_props kvs) key = map_option embed (map_of kvs key)"
  by (induction kvs) (auto simp: embed_props_def)

lemma keys_embed_props: "map fst (embed_props kvs) = map fst kvs"
  by (induction kvs) (auto simp: embed_props_def)

lemma embed_props_set_prop:
  "embed_props (set_prop obj key v) = set_prop (embed_props obj) key (embed v)"
  by (induction obj) (auto simp: embed_props_def)

lemma embed_JObj: "embed (JObj kvs) = DObj (embed_props kvs)"
  by (simp add: embed_props_def)

lemma baseMerge_untouched:
  "baseMerge obj src = Some merged \<Longrightarrow> key \<notin> fst ` set src \<Longrightarrow>
   map_of merged key = map_of obj key"
proof (induction src arbitrary: obj)
  case Nil
  then show ?case by simp
next
  case (Cons kv src)
  obtain k v where kv: "kv = (k, v)" by (cases kv)
  from Cons.prems kv have ne: "key \<noteq> k" and fresh: "key \<notin> fst ` set src" by auto
  from Cons.prems(1) kv consider
      "baseMerge obj src = Some merged"
    | w where "baseMerge (set_prop obj k w) src = Some merged"
    by (auto split: if_splits option.splits)
  then show ?case
  proof cases
    case 1
    then show ?thesis using fresh by (rule Cons.IH)
  next
    case 2
    from Cons.IH [OF 2 fresh] ne show ?thesis by (simp add: map_of_set_prop)
  qed
qed

text \<open>Whether the step for a key with this source value leaves the destination alone.\<close>

lemma baseMerge_step:
  "baseMerge obj ((key, srcValue) # src) =
     (if (key = ''__proto__'' \<and> isObject srcValue) \<or>
         (srcValue = JUndefined \<and> (map_of obj key \<noteq> None \<or> key \<in> set object_prototype_names))
      then baseMerge obj src
      else (case mergeValue (safeGet obj key) srcValue of
              None \<Rightarrow> None
            | Some v \<Rightarrow> baseMerge (set_prop obj key v) src))"
proof -
  have "(if A then X else if B then X else Y) = (if A \<or> B then X else Y)"
    for A B and X Y :: "dobj option"
    by simp
  then show ?thesis by (simp only: baseMerge.simps)
qed

lemma baseMerge_key:
  "distinct (map fst src) \<Longrightarrow> baseMerge obj src = Some merged \<Longrightarrow>
   map_of src key = Some srcValue \<Longrightarrow>
   map_of merged key =
     (if (key = ''__proto__'' \<and> isObject srcValue) \<or>
         (srcValue = JUndefined \<and> (map_of obj key \<noteq> None \<or> key \<in> set object_prototype_names))
      then map_of obj key
      else mergeValue (safeGet obj key) srcValue)"
proof (induction src arbitrary: obj)
  case Nil
  then show ?case by simp
next
  case (Cons kv src)
  obtain k v where kv: "kv = (k, v)" by (cases kv)
  from Cons.prems kv have fresh: "k \<notin> fst ` set src" and d: "distinct (map fst src)" by auto
  define skip where "skip obj k v \<longleftrightarrow> (k = ''__proto__'' \<and> isObject v) \<or>
      (v = JUndefined \<and> (map_of obj k \<noteq> None \<or> k \<in> set object_prototype_names))"
    for obj :: dobj and k v
  show ?case
  proof (cases "key = k")
    case True
    with Cons.prems kv have sv: "srcValue = v" by simp
    show ?thesis
    proof (cases "skip obj k v")
      case True
      with Cons.prems(2) kv have r: "baseMerge obj src = Some merged"
        by (simp add: skip_def del: baseMerge.simps add: baseMerge_step)
      from baseMerge_untouched [OF r fresh] True sv \<open>key = k\<close> show ?thesis
        by (simp add: skip_def)
    next
      case False
      with Cons.prems(2) kv obtain w where w: "mergeValue (safeGet obj k) v = Some w"
        and r: "baseMerge (set_prop obj k w) src = Some merged"
        by (auto simp: skip_def baseMerge_step simp del: baseMerge.simps split: option.splits)
      from baseMerge_untouched [OF r fresh] False w sv \<open>key = k\<close> show ?thesis
        by (auto simp: skip_def map_of_set_prop)
    qed
  next
    case False
    with Cons.prems kv have s: "map_of src key = Some srcValue" by simp
    from Cons.prems(2) kv consider
        "baseMerge obj src = Some merged"
      | w where "baseMerge (set_prop obj k w) src = Some merged"
      by (auto split: if_splits option.splits)
    then show ?thesis
    proof cases
      case 1
      from Cons.IH [OF d 1 s] show ?thesis .
    next
      case 2
      from Cons.IH [OF d 2 s] False show ?thesis
        by (simp add: map_of_set_prop safeGet_def)
    qed
  qed
qed

lemma baseMerge_keeps_keys:
  "baseMerge obj src = Some merged \<Longrightarrow> key \<in> fst ` set obj \<Longrightarrow> key \<in> fst ` set merged"
proof (induction src arbitrary: obj)
  case Nil
  then show ?case by simp
next
  case (Cons kv src)
  obtain k v where kv: "kv = (k, v)" by (cases kv)
  from Cons.prems(1) kv consider
      "baseMerge obj src = Some merged"
    | w where "baseMerge (set_prop obj k w) src = Some merged"
    by (auto split: if_splits option.splits)
  then show ?case
  proof cases
    case 1
    then show ?thesis using Cons.prems(2) by (rule Cons.IH)
  next
    case 2
    from Cons.IH [OF 2] Cons.prems(2) show ?thesis by (simp add: set_prop_keys)
  qed
qed




lemma mergeValue_scalar:
  "\<not> isObject v \<Longrightarrow> v \<noteq> JUndefined \<Longrightarrow> mergeValue objValue v = Some (embed v)"
  by (cases v) (simp_all add: isObject_def)




text \<open>One step of the merge on JSON-like values.\<close>

lemma baseMergeObj_D:
  "baseMergeObj obj src = Some merged \<Longrightarrow>
   baseMerge (embed_props obj) src = Some (embed_props merged)"
  by (auto simp: baseMergeObj_def split: option.splits dest: plain_is_embed(3))

lemma baseMergeObj_I:
  "baseMerge (embed_props obj) src = Some (embed_props merged) \<Longrightarrow>
   baseMergeObj obj src = Some merged"
  by (simp add: baseMergeObj_def plain_props_embed)

lemma map_option_embed_eq:
  "map_option embed a = map_option embed b \<Longrightarrow> a = b"
  by (cases a; cases b) (auto dest: embed_inject)

lemma baseMergeObj_untouched:
  assumes "baseMergeObj obj src = Some merged" and "key \<notin> fst ` set src"
  shows "map_of merged key = map_of obj key"
proof -
  from baseMerge_untouched [OF baseMergeObj_D [OF assms(1)] assms(2)]
  have "map_option embed (map_of merged key) = map_option embed (map_of obj key)"
    by (simp add: map_of_embed_props)
  then show ?thesis by (rule map_option_embed_eq)
qed

lemma baseMergeObj_scalar:
  assumes "distinct (map fst src)" and "baseMergeObj obj src = Some merged"
    and "map_of src key = Some v" and "\<not> isArray v" and "\<not> isPlainObject v" and "v \<noteq> JUndefined"
  shows "map_of merged key = Some v"
proof -
  from assms(4,5) have o: "\<not> isObject v" by (simp add: isObject_def)
  from baseMerge_key [OF assms(1) baseMergeObj_D [OF assms(2)] assms(3)] o assms(6)
  have "map_option embed (map_of merged key) = map_option embed (Some v)"
    by (simp add: map_of_embed_props mergeValue_scalar)
  then show ?thesis by (rule map_option_embed_eq)
qed

lemma baseMergeObj_proto:
  assumes "distinct (map fst src)" and "baseMergeObj obj src = Some merged"
    and "map_of src ''__proto__'' = Some v" and "isArray v \<or> isPlainObject v"
  shows "map_of merged ''__proto__'' = map_of obj ''__proto__''"
proof -
  from assms(4) have o: "isObject v" by (simp add: isObject_def)
  from baseMerge_key [OF assms(1) baseMergeObj_D [OF assms(2)] assms(3)] o
  have "map_option embed (map_of merged ''__proto__'') = map_option embed (map_of obj ''__proto__'')"
    by (simp add: map_of_embed_props)
  then show ?thesis by (rule map_option_embed_eq)
qed

lemma baseMergeObj_nested:
  assumes "distinct (map fst src)" and "baseMergeObj obj src = Some merged"
    and "key \<noteq> ''__proto__''"
    and "map_of obj key = Some (JObj inner)" and "map_of src key = Some (JObj innerSrc)"
  shows "\<exists>nested. map_of merged key = Some (JObj nested) \<and> baseMergeObj inner innerSrc = Some nested"
proof -
  from assms(3,4) have "safeGet (embed_props obj) key = Some (DObj (embed_props inner))"
    by (simp add: safeGet_def map_of_embed_props embed_JObj del: embed.simps)
  with baseMerge_key [OF assms(1) baseMergeObj_D [OF assms(2)] assms(5)] assms(3)
  have m: "map_option embed (map_of merged key) =
      map_option DObj (baseMerge (embed_props inner) innerSrc)"
    by (simp add: map_of_embed_props)
  from assms(4) have "key \<in> fst ` set (embed_props obj)"
    by (metis keys_embed_props map_of_eq_None_iff option.distinct(1) set_map)
  from baseMerge_keeps_keys [OF baseMergeObj_D [OF assms(2)] this]
  have "map_of merged key \<noteq> None"
    by (metis keys_embed_props map_of_eq_None_iff set_map)
  then obtain w where w: "map_of merged key = Some w" by auto
  with m obtain n where n: "baseMerge (embed_props inner) innerSrc = Some n" and e: "embed w = DObj n"
    by (cases "baseMerge (embed_props inner) innerSrc") auto
  from e obtain nested where nested: "w = JObj nested" and "n = embed_props nested"
    by (cases w) (auto simp: embed_props_def)
  with n have "baseMergeObj inner innerSrc = Some nested" by (simp add: baseMergeObj_I)
  with w nested show ?thesis by simp
qed

text \<open>The definitions that evaluate a merge of given JSON-like values.\<close>

lemmas merge_eval = baseMergeObj_def embed_props_def safeGet_def isObject_def


lemma lodash_merge_last:
  "lodash_merge object (sources @ [source]) =
     (case lodash_merge object sources of
        None \<Rightarrow> None
      | Some merged \<Rightarrow> baseMergeObj merged source)"
  by (induction sources arbitrary: object) (auto split: option.splits)

lemma lodash_merge_four:
  "lodash_merge defaults [network, runtime, cli] =
     (case lodash_merge defaults [network, runtime] of
        None \<Rightarrow> None
      | Some merged \<Rightarrow> baseMergeObj merged cli)"
  using lodash_merge_last [of defaults "[network, runtime]" cli] by simp







lemma merge_example_scalars:
  "lodash_merge [(''port'', JNum 1), (''host'', JStr ''a'')]
     [[(''port'', JNum 2)], [], [(''host'', JStr ''b'')]] =
     Some [(''port'', JNum 2), (''host'', JStr ''b'')]"
  by (simp add: baseMergeObj_def embed_props_def safeGet_def isObject_def)

lemma merge_example_nested:
  "lodash_merge [(''db'', JObj [(''name'', JStr ''x''), (''pool'', JNum 5)])]
     [[], [], [(''db'', JObj [(''name'', JStr ''y'')])]] =
     Some [(''db'', JObj [(''name'', JStr ''y''), (''pool'', JNum 5)])]"
  by (simp add: baseMergeObj_def embed_props_def safeGet_def isObject_def)

text \<open>
  Claim C6. The two examples of the specification: defaults \<open>{port:1, host:"a"}\<close>, network
  \<open>{port:2}\<close>, runtime \<open>{}\<close>, cli \<open>{host:"b"}\<close> merge to \<open>{port:2, host:"b"}\<close>; and defaults
  \<open>{db:{name:"x", pool:5}}\<close> with cli \<open>{db:{name:"y"}}\<close> merge to \<open>{db:{name:"y", pool:5}}\<close>.
  In general the last source wins on a scalar (other than \<open>undefined\<close>) it holds, and
  where the last source and the merge of the sources below it both hold a mapping under
  a key, the mappings are merged key by key: the nested keys that the last source does
  not have keep their values. The one key for which lodash makes an exception is
  \<^verbatim>\<open>__proto__\<close>: a mapping or sequence that the last source holds under it is ignored,
  and the value of the sources below stays.
\<close>

theorem merge_precedence_examples:
  "lodash_merge [(''port'', JNum 1), (''host'', JStr ''a'')]
     [[(''port'', JNum 2)], [], [(''host'', JStr ''b'')]] =
     Some [(''port'', JNum 2), (''host'', JStr ''b'')] \<and>
   lodash_merge [(''db'', JObj [(''name'', JStr ''x''), (''pool'', JNum 5)])]
     [[], [], [(''db'', JObj [(''name'', JStr ''y'')])]] =
     Some [(''db'', JObj [(''name'', JStr ''y''), (''pool'', JNum 5)])] \<and>
   (distinct (map fst cli) \<and> lodash_merge defaults [network, runtime, cli] = Some merged \<and>
    map_of cli key = Some v \<and> \<not> isArray v \<and> \<not> isPlainObject v \<and> v \<noteq> JUndefined \<longrightarrow>
    map_of merged key = Some v) \<and>
   (distinct (map fst cli) \<and> lodash_merge defaults [network, runtime] = Some below \<and>
    baseMergeObj below cli = Some merged \<and> key \<noteq> ''__proto__'' \<and>
    map_of below key = Some (JObj obj) \<and> map_of cli key = Some (JObj src) \<longrightarrow>
    (\<exists>nested. map_of merged key = Some (JObj nested) \<and>
       baseMergeObj obj src = Some nested \<and>
       (\<forall>k. map_of src k = None \<longrightarrow> map_of nested k = map_of obj k))) \<and>
   (distinct (map fst cli) \<and> lodash_merge defaults [network, runtime] = Some below \<and>
    baseMergeObj below cli = Some merged \<and>
    map_of cli ''__proto__'' = Some w \<and> (isArray w \<or> isPlainObject w) \<longrightarrow>
    map_of merged ''__proto__'' = map_of below ''__proto__'')"
proof (intro conjI impI)
  show "lodash_merge [(''port'', JNum 1), (''host'', JStr ''a'')]
     [[(''port'', JNum 2)], [], [(''host'', JStr ''b'')]] =
     Some [(''port'', JNum 2), (''host'', JStr ''b'')]"
    by (rule merge_example_scalars)
next
  show "lodash_merge [(''db'', JObj [(''name'', JStr ''x''), (''pool'', JNum 5)])]
     [[], [], [(''db'', JObj [(''name'', JStr ''y'')])]] =
     Some [(''db'', JObj [(''name'', JStr ''y''), (''pool'', JNum 5)])]"
    by (rule merge_example_nested)
next
  assume a: "distinct (map fst cli) \<and> lodash_merge defaults [network, runtime, cli] = Some merged \<and>
    map_of cli key = Some v \<and> \<not> isArray v \<and> \<not> isPlainObject v \<and> v \<noteq> JUndefined"
  then obtain below where b: "baseMergeObj below cli = Some merged"
    by (auto simp: lodash_merge_four split: option.splits)
  from a show "map_of merged key = Some v"
    by (intro baseMergeObj_scalar [OF _ b]) simp_all
next
  assume a: "distinct (map fst cli) \<and> lodash_merge defaults [network, runtime] = Some below \<and>
    baseMergeObj below cli = Some merged \<and> key \<noteq> ''__proto__'' \<and>
    map_of below key = Some (JObj obj) \<and> map_of cli key = Some (JObj src)"
  with baseMergeObj_nested [of cli below merged key obj src] obtain nested where
    m: "map_of merged key = Some (JObj nested)" and n: "baseMergeObj obj src = Some nested"
    by auto
  have "\<forall>k. map_of src k = None \<longrightarrow> map_of nested k = map_of obj k"
    using baseMergeObj_untouched [OF n] by (simp add: map_of_eq_None_iff)
  with m n show "\<exists>nested. map_of merged key = Some (JObj nested) \<and>
       baseMergeObj obj src = Some nested \<and>
       (\<forall>k. map_of src k = None \<longrightarrow> map_of nested k = map_of obj k)"
    by simp
next
  assume a: "distinct (map fst cli) \<and> lodash_merge defaults [network, runtime] = Some below \<and>
    baseMergeObj below cli = Some merged \<and>
    map_of cli ''__proto__'' = Some w \<and> (isArray w \<or> isPlainObject w)"
  then show "map_of merged ''__proto__'' = map_of below ''__proto__''"
    using baseMergeObj_proto [of cli below merged w] by simp
qed

theorem merge_precedence_examples_witness:
  "distinct (map fst [(''db'', JObj [(''name'', JStr ''y'')]), (''host'', JStr ''b'')]) \<and>
   lodash_merge [(''db'', JObj [(''name'', JStr ''x''), (''pool'', JNum 5)]), (''host'', JStr ''a'')]
     [[], [], [(''db'', JObj [(''name'', JStr ''y'')]), (''host'', JStr ''b'')]] =
     Some [(''db'', JObj [(''name'', JStr ''y''), (''pool'', JNum 5)]), (''host'', JStr ''b'')] \<and>
   lodash_merge [(''db'', JObj [(''name'', JStr ''x''), (''pool'', JNum 5)]), (''host'', JStr ''a'')]
     [[], []] =
     Some [(''db'', JObj [(''name'', JStr ''x''), (''pool'', JNum 5)]), (''host'', JStr ''a'')] \<and>
   map_of [(''db'', JObj [(''name'', JStr ''y''), (''pool'', JNum 5)]), (''host'', JStr ''b'')] ''host'' =
     Some (JStr ''b'') \<and>
   (\<exists>nested.
      map_of [(''db'', JObj [(''name'', JStr ''y''), (''pool'', JNum 5)]), (''host'', JStr ''b'')] ''db'' =
        Some (JObj nested) \<and>
      map_of nested ''pool'' = Some (JNum 5))"
proof -
  have four: "lodash_merge [(''db'', JObj [(''name'', JStr ''x''), (''pool'', JNum 5)]), (''host'', JStr ''a'')]
     [[], [], [(''db'', JObj [(''name'', JStr ''y'')]), (''host'', JStr ''b'')]] =
     Some [(''db'', JObj [(''name'', JStr ''y''), (''pool'', JNum 5)]), (''host'', JStr ''b'')]"
    by (simp add: baseMergeObj_def embed_props_def safeGet_def isObject_def)
  have three: "lodash_merge [(''db'', JObj [(''name'', JStr ''x''), (''pool'', JNum 5)]), (''host'', JStr ''a'')]
     [[], []] =
     Some [(''db'', JObj [(''name'', JStr ''x''), (''pool'', JNum 5)]), (''host'', JStr ''a'')]"
    by (simp add: baseMergeObj_def embed_props_def)
  have last: "baseMergeObj [(''db'', JObj [(''name'', JStr ''x''), (''pool'', JNum 5)]), (''host'', JStr ''a'')]
     [(''db'', JObj [(''name'', JStr ''y'')]), (''host'', JStr ''b'')] =
     Some [(''db'', JObj [(''name'', JStr ''y''), (''pool'', JNum 5)]), (''host'', JStr ''b'')]"
    by (simp add: baseMergeObj_def embed_props_def safeGet_def isObject_def)
  from merge_precedence_examples
    [of "[(''db'', JObj [(''name'', JStr ''y'')]), (''host'', JStr ''b'')]"
        "[(''db'', JObj [(''name'', JStr ''x''), (''pool'', JNum 5)]), (''host'', JStr ''a'')]"
        "[]" "[]"
        "[(''db'', JObj [(''name'', JStr ''y''), (''pool'', JNum 5)]), (''host'', JStr ''b'')]"
        "''host''" "JStr ''b''"
        "[(''db'', JObj [(''name'', JStr ''x''), (''pool'', JNum 5)]), (''host'', JStr ''a'')]"
        "[(''name'', JStr ''x''), (''pool'', JNum 5)]" "[(''name'', JStr ''y'')]"]
    four three last
  show ?thesis by simp
qed

section \<open>Properties of the orchestration\<close>

lemma then_do_Inl [simp]: "then_do (out, Inl e) f = (out, Inl e)"
  by (simp add: then_do_def)

lemma then_do_returned [simp]: "then_do (returned x) f = f x"
  by (simp add: then_do_def returned_def split: prod.splits)

lemma then_do_assoc: "then_do (then_do m f) g = then_do m (\<lambda>x. then_do (f x) g)"
  by (auto simp: then_do_def split: prod.splits sum.splits)

lemma then_do_returned_right: "then_do m returned = m"
  by (auto simp: then_do_def returned_def split: prod.splits sum.splits)

lemma Config_prepare:
  "Config packageJson b env =
     then_do (prepare packageJson b env) (\<lambda>(src, appConfig). validate_config env src appConfig)"
  by (simp add: Config_def prepare_def assemble_def then_do_assoc)

lemma then_do_went_on:
  "m = (out, Inr x) \<Longrightarrow> then_do m f = (out @ fst (f x), snd (f x))"
  by (simp add: then_do_def split: prod.splits)

lemma then_do_Inr_D:
  "then_do m f = (out', Inr y) \<Longrightarrow>
   \<exists>out x out2. m = (out, Inr x) \<and> f x = (out2, Inr y) \<and> out' = out @ out2"
  by (auto simp: then_do_def split: prod.splits sum.splits)

text \<open>
  Claim C9. When the steps before the validation went on and the validator reports the
  merged configuration invalid, \<^verbatim>\<open>Config\<close> writes the validator's errors to the error
  stream after what was printed before and the process exits with status 1: no
  configuration is returned, nothing is attached and the Safety Override does not run.
  Conversely, whenever \<^verbatim>\<open>Config\<close> returns a configuration, the validator accepted the merged
  configuration, and the returned one is the result of the attachments and the Safety
  Override on it.
\<close>

theorem invalid_config_exits:
  "(prepare packageJson parseCommandLineOptions env = (out, Inr (src, appConfig)) \<and>
    \<not> validate env appConfig \<longrightarrow>
    Config packageJson parseCommandLineOptions env =
      (out @ [Error ''Failed to validate config data'' [getLastErrors env appConfig]],
       Inl (ProcessExit 1))) \<and>
   (Config packageJson parseCommandLineOptions env = (out', Inr configData) \<longrightarrow>
    (\<exists>out1 out2 src appConfig.
       prepare packageJson parseCommandLineOptions env = (out1, Inr (src, appConfig)) \<and>
       validate env appConfig \<and>
       attach_and_override src appConfig = (out2, Inr configData) \<and>
       out' = out1 @ out2))"
proof (intro conjI impI)
  assume "prepare packageJson parseCommandLineOptions env = (out, Inr (src, appConfig)) \<and>
    \<not> validate env appConfig"
  then show "Config packageJson parseCommandLineOptions env =
      (out @ [Error ''Failed to validate config data'' [getLastErrors env appConfig]],
       Inl (ProcessExit 1))"
    by (simp add: Config_prepare then_do_went_on validate_config_def)
next
  assume "Config packageJson parseCommandLineOptions env = (out', Inr configData)"
  then obtain out1 x out2 where p: "prepare packageJson parseCommandLineOptions env = (out1, Inr x)"
    and v: "(case x of (src, appConfig) \<Rightarrow> validate_config env src appConfig) = (out2, Inr configData)"
    and o: "out' = out1 @ out2"
    unfolding Config_prepare by (blast dest: then_do_Inr_D)
  obtain src appConfig where x: "x = (src, appConfig)" by (cases x)
  from v x have "validate env appConfig" and "attach_and_override src appConfig = (out2, Inr configData)"
    by (auto simp: validate_config_def split: if_splits)
  with p o x show "\<exists>out1 out2 src appConfig.
       prepare packageJson parseCommandLineOptions env = (out1, Inr (src, appConfig)) \<and>
       validate env appConfig \<and>
       attach_and_override src appConfig = (out2, Inr configData) \<and>
       out' = out1 @ out2"
    by blast
qed

lemma sample_options:
  "read_flags [''node'', ''app.js'', ''--port'', ''5000''] no_options = no_options\<lparr>opt_port := JStr ''5000''\<rparr>"
  by simp

lemma sample_reparse:
  "read_flags [''node'', ''app.js'', ''--port'', ''5000''] (no_options\<lparr>opt_port := JStr ''5000''\<rparr>) =
     no_options\<lparr>opt_port := JStr ''5000''\<rparr>"
  by simp

lemma sample_load:
  "load_sources (sample_env valid) (no_options\<lparr>opt_port := JStr ''5000''\<rparr>) = returned sample_sources"
  by (simp add: load_sources_def sample_env_def resolve_network_def js_or_def no_options_def
      process_env_def loadJSONFile_def require_module_def sample_files_def sample_modules_def
      sample_sources_def)

lemma decimal_5000: "decimal ''5000'' = JNum 5000"
  by (simp add: decimal_def)

lemma sample_merge:
  "merge_sources (sample_env valid) sample_package (no_options\<lparr>opt_port := JStr ''5000''\<rparr>)
     sample_sources = returned sample_merged"
  by (simp add: merge_sources_def runtimeConfig_def commandLineConfig_def listening_port_def
      sample_env_def sample_package_def sample_sources_def no_options_def js_or_def
      process_env_def get_prop_def decimal_5000 default_options_def iteratee_def
      sample_merged_def numeral_eq_Suc merge_eval)

lemma sample_prepare:
  "prepare sample_package b (sample_env valid) = ([], Inr (sample_sources, sample_merged))"
proof -
  have "prepare sample_package b (sample_env valid) =
      then_do (load_sources (sample_env valid) (no_options\<lparr>opt_port := JStr ''5000''\<rparr>)) (\<lambda>src.
      then_do (merge_sources (sample_env valid) sample_package
                 (no_options\<lparr>opt_port := JStr ''5000''\<rparr>) src) (\<lambda>appConfig.
      returned (src, appConfig)))"
    by (simp add: prepare_def sample_env_def sample_options sample_reparse del: read_flags.simps)
  then show ?thesis by (simp add: sample_load sample_merge) (simp add: returned_def)
qed

lemma sample_valid: "validate (sample_env valid) appConfig = valid appConfig"
  by (simp add: sample_env_def)

theorem invalid_config_exits_witness:
  "prepare sample_package True (sample_env (\<lambda>appConfig. False)) =
     ([], Inr (sample_sources, sample_merged)) \<and>
   \<not> validate (sample_env (\<lambda>appConfig. False)) sample_merged \<and>
   Config sample_package True (sample_env (\<lambda>appConfig. False)) =
     ([Error ''Failed to validate config data'' [JArr [JStr ''OBJECT_MISSING_REQUIRED_PROPERTY'']]],
      Inl (ProcessExit 1))"
proof -
  have v: "\<not> validate (sample_env (\<lambda>appConfig. False)) sample_merged"
    by (simp add: sample_env_def)
  have e: "getLastErrors (sample_env (\<lambda>appConfig. False)) sample_merged =
      JArr [JStr ''OBJECT_MISSING_REQUIRED_PROPERTY'']"
    by (simp add: sample_env_def)
  from invalid_config_exits [of sample_package True "sample_env (\<lambda>appConfig. False)" "[]"
      sample_sources sample_merged] sample_prepare [of True "\<lambda>appConfig. False"] v e
  show ?thesis by simp
qed

text \<open>
  Claim C10. With a command-line parser for which a second parse of the same arguments
  is idle, the parameter \<^verbatim>\<open>parseCommandLineOptions\<close> has no effect: \<^verbatim>\<open>Config\<close> prints and
  returns the same with \<^verbatim>\<open>true\<close> and with \<^verbatim>\<open>false\<close>. With \<^verbatim>\<open>false\<close> the command line is
  parsed all the same, by the \<^verbatim>\<open>.parse(process.argv)\<close> that ends the chain of option
  definitions, and the configuration is assembled from the parsed options.
\<close>

theorem parseCommandLineOptions_has_no_effect:
  assumes "reparse_idle env"
  shows "Config packageJson True env = Config packageJson False env \<and>
    Config packageJson False env =
      then_do (parse env (argv env) (commander env))
        (\<lambda>program. assemble env packageJson (options env program))"
proof
  show "Config packageJson True env = Config packageJson False env"
  proof (cases "parse env (argv env) (commander env)")
    case (Pair out r)
    show ?thesis
    proof (cases r)
      case (Inl e)
      with Pair show ?thesis by (simp add: Config_def)
    next
      case (Inr program1)
      with Pair assms obtain program2 where
        again: "parse env (argv env) program1 = ([], Inr program2)"
        and same: "options env program2 = options env program1"
        by (auto simp: reparse_idle_def)
      from again have "parse env (argv env) program1 = returned program2"
        by (simp add: returned_def)
      with Pair Inr same show ?thesis
        by (simp add: Config_def then_do_went_on)
    qed
  qed
next
  show "Config packageJson False env =
      then_do (parse env (argv env) (commander env))
        (\<lambda>program. assemble env packageJson (options env program))"
    by (simp add: Config_def)
qed

lemma sample_attach:
  "attach_and_override sample_sources sample_merged =
     ([Log ''Forced forging disabled for nethash'' [JStr ''H1'']],
      Inr [(''port'', JNum 5000), (''forging'', JObj [(''force'', JBool False)]),
           (''network'', JStr ''devnet''), (''root'', JStr ''/opt/adamant''),
           (''nonce'', JStr ''xxxxxxxxxxxxxxxx''), (''version'', JStr ''0.8.0''),
           (''minVersion'', JStr ''0.4.0''), (''nethash'', JStr ''H1''),
           (''coverage'', JBool False),
           (''genesisBlock'', JObj [(''payloadHash'', JStr ''H1'')]),
           (''constants'', JObj [(''nethashes'', JArr [JStr ''H1'', JStr ''H2''])]),
           (''exceptions'', JObj [])])"
  by (simp add: attach_and_override_def sample_sources_def sample_merged_def validateForce_def
      get_prop_def merge_eval)

theorem parseCommandLineOptions_has_no_effect_witness:
  "reparse_idle (sample_env (\<lambda>appConfig. True)) \<and>
   Config sample_package True (sample_env (\<lambda>appConfig. True)) =
     Config sample_package False (sample_env (\<lambda>appConfig. True)) \<and>
   Config sample_package False (sample_env (\<lambda>appConfig. True)) =
     ([Log ''Forced forging disabled for nethash'' [JStr ''H1'']],
      Inr [(''port'', JNum 5000), (''forging'', JObj [(''force'', JBool False)]),
           (''network'', JStr ''devnet''), (''root'', JStr ''/opt/adamant''),
           (''nonce'', JStr ''xxxxxxxxxxxxxxxx''), (''version'', JStr ''0.8.0''),
           (''minVersion'', JStr ''0.4.0''), (''nethash'', JStr ''H1''),
           (''coverage'', JBool False),
           (''genesisBlock'', JObj [(''payloadHash'', JStr ''H1'')]),
           (''constants'', JObj [(''nethashes'', JArr [JStr ''H1'', JStr ''H2''])]),
           (''exceptions'', JObj [])])"
proof -
  have idle: "reparse_idle (sample_env (\<lambda>appConfig. True))"
    by (simp add: reparse_idle_def sample_env_def returned_def sample_options sample_reparse
        del: read_flags.simps)
  have "Config sample_package False (sample_env (\<lambda>appConfig. True)) =
      then_do (prepare sample_package False (sample_env (\<lambda>appConfig. True)))
        (\<lambda>(src, appConfig). validate_config (sample_env (\<lambda>appConfig. True)) src appConfig)"
    by (rule Config_prepare)
  also have "\<dots> = attach_and_override sample_sources sample_merged"
    by (simp add: sample_prepare then_do_went_on validate_config_def sample_valid)
  finally have c: "Config sample_package False (sample_env (\<lambda>appConfig. True)) =
      attach_and_override sample_sources sample_merged" .
  from parseCommandLineOptions_has_no_effect [OF idle, of sample_package] idle c
  show ?thesis by (simp add: sample_attach)
qed

section \<open>The pruned command-line source in the merge\<close>

lemma pruned_source_leaves_key:
  assumes "distinct (map fst cli)"
    and "map_of cli key = Some v" and "v = JNull \<or> v = JUndefined \<or> v = JStr []"
    and "cleanDeep default_options (JObj cli) = JObj pruned"
    and "lodash_merge defaults [network, runtime, pruned] = Some merged"
  shows "map_of pruned key = None \<and>
    (\<exists>below. lodash_merge defaults [network, runtime] = Some below \<and>
       map_of merged key = map_of below key) \<and>
    (map_of runtime key = None \<longrightarrow>
       (\<exists>files. lodash_merge defaults [network] = Some files \<and>
          map_of merged key = map_of files key))"
proof -
  have p: "pruned = pruned_entries default_options cli"
    using baseForOwn_distinct [of "[]" cli default_options] assms(1,4) by simp
  from assms(3) have "recurse default_options v = v" and "empty_shape default_options v"
    by (auto simp: empty_shape_def default_options_def)
  with assms(2) have none: "map_of pruned key = None"
    by (simp add: p map_of_pruned_entries [OF assms(1)])
  then have fresh: "key \<notin> fst ` set pruned" by (simp add: map_of_eq_None_iff)
  from assms(5) obtain below where b: "lodash_merge defaults [network, runtime] = Some below"
    and m: "baseMergeObj below pruned = Some merged"
    by (auto simp: lodash_merge_four split: option.splits)
  from baseMergeObj_untouched [OF m fresh] have mb: "map_of merged key = map_of below key" .
  have "\<exists>files. lodash_merge defaults [network] = Some files \<and>
          map_of merged key = map_of files key" if r: "map_of runtime key = None"
  proof -
    from b obtain files where f: "lodash_merge defaults [network] = Some files"
      and fr: "baseMergeObj files runtime = Some below"
      by (auto split: option.splits)
    from r have "key \<notin> fst ` set runtime" by (simp add: map_of_eq_None_iff)
    from baseMergeObj_untouched [OF fr this] mb f show ?thesis by simp
  qed
  with none b mb show ?thesis by blast
qed

lemma commandLineConfig_keys: "distinct (map fst (commandLineConfig env program src))"
  by (simp add: commandLineConfig_def)

lemma commandLineConfig_port:
  "\<not> truthy (listening_port env program) \<Longrightarrow>
   map_of (commandLineConfig env program src) ''port'' = Some JNull"
  by (simp add: commandLineConfig_def js_or_def)

lemma runtimeConfig_no_port:
  "runtimeConfig env packageJson src = Inr runtime \<Longrightarrow> map_of runtime ''port'' = None"
  by (auto simp: runtimeConfig_def split: sum.splits)

lemma merge_sources_went_on:
  "merge_sources env packageJson program src = (out, Inr appConfig) \<Longrightarrow>
   \<exists>runtime cli. runtimeConfig env packageJson src = Inr runtime \<and>
     cleanDeep default_options (JObj (commandLineConfig env program src)) = JObj cli \<and>
     lodash_merge (defaultConfig src) [customConfig src, runtime, cli] = Some appConfig"
  by (auto simp: merge_sources_def returned_def split: sum.splits jsval.splits option.splits)

text \<open>
  Claim C5. When the command-line-derived source holds \<open>null\<close>, \<open>undefined\<close> or the empty
  string under a key, the key is absent from the pruned source, and the merged value of
  the key is the one of the merge of defaults, network and runtime sources; when the
  runtime source does not have the key either, it is the value of the merge of the two
  file-based sources. In \<^verbatim>\<open>Config\<close>: when neither the port flag nor the port variable of
  the environment gives a port, the command-line-derived source holds \<open>null\<close> under
  \<open>port\<close>, and the merged \<open>port\<close> is the one of the merge of the default and the network
  configuration files.
\<close>

theorem pruned_cli_never_overrides:
  assumes "distinct (map fst cli)"
    and "map_of cli key = Some v" and "v = JNull \<or> v = JUndefined \<or> v = JStr []"
    and "cleanDeep default_options (JObj cli) = JObj pruned"
    and "lodash_merge defaults [network, runtime, pruned] = Some merged"
  shows "map_of pruned key = None \<and>
    (\<exists>below. lodash_merge defaults [network, runtime] = Some below \<and>
       map_of merged key = map_of below key) \<and>
    (map_of runtime key = None \<longrightarrow>
       (\<exists>files. lodash_merge defaults [network] = Some files \<and>
          map_of merged key = map_of files key)) \<and>
    (merge_sources env packageJson program src = (out, Inr appConfig) \<and>
     \<not> truthy (listening_port env program) \<longrightarrow>
       map_of (commandLineConfig env program src) ''port'' = Some JNull \<and>
       (\<exists>files. lodash_merge (defaultConfig src) [customConfig src] = Some files \<and>
          map_of appConfig ''port'' = map_of files ''port''))"
proof -
  have "map_of (commandLineConfig env program src) ''port'' = Some JNull \<and>
       (\<exists>files. lodash_merge (defaultConfig src) [customConfig src] = Some files \<and>
          map_of appConfig ''port'' = map_of files ''port'')"
    if m: "merge_sources env packageJson program src = (out, Inr appConfig)"
      and p: "\<not> truthy (listening_port env program)"
  proof -
    from merge_sources_went_on [OF m] obtain rt pr where
      rt: "runtimeConfig env packageJson src = Inr rt"
      and pr: "cleanDeep default_options (JObj (commandLineConfig env program src)) = JObj pr"
      and ap: "lodash_merge (defaultConfig src) [customConfig src, rt, pr] = Some appConfig"
      by blast
    note port = commandLineConfig_port [OF p, of src]
    from pruned_source_leaves_key [OF commandLineConfig_keys port _ pr ap]
      runtimeConfig_no_port [OF rt] port
    show ?thesis by simp
  qed
  with pruned_source_leaves_key [OF assms] show ?thesis by blast
qed

lemma sample_merge_no_flag:
  "merge_sources (sample_env valid) sample_package no_options sample_sources =
     ([], Inr [(''port'', JNum 36667), (''forging'', JObj [(''force'', JBool True)]),
               (''network'', JStr ''devnet''), (''root'', JStr ''/opt/adamant''),
               (''nonce'', JStr ''xxxxxxxxxxxxxxxx''), (''version'', JStr ''0.8.0''),
               (''minVersion'', JStr ''0.4.0''), (''nethash'', JStr ''H1''),
               (''coverage'', JBool False)])"
  by (simp add: merge_sources_def runtimeConfig_def commandLineConfig_def listening_port_def
      sample_env_def sample_package_def sample_sources_def no_options_def js_or_def
      process_env_def get_prop_def default_options_def iteratee_def returned_def
      numeral_eq_Suc merge_eval)

lemma sample_no_port: "\<not> truthy (listening_port (sample_env valid) no_options)"
  by (simp add: listening_port_def sample_env_def no_options_def js_or_def process_env_def)

theorem pruned_cli_never_overrides_witness:
  "distinct (map fst cli_null_port) \<and>
   map_of cli_null_port ''port'' = Some JNull \<and>
   cleanDeep default_options (JObj cli_null_port) = JObj [(''address'', JStr ''0.0.0.0'')] \<and>
   lodash_merge [(''port'', JNum 36666), (''address'', JStr ''127.0.0.1'')]
     [[(''port'', JNum 36667)], [(''nethash'', JStr ''H1'')], [(''address'', JStr ''0.0.0.0'')]] =
     Some [(''port'', JNum 36667), (''address'', JStr ''0.0.0.0''), (''nethash'', JStr ''H1'')] \<and>
   map_of [(''address'', JStr ''0.0.0.0'')] ''port'' = None \<and>
   lodash_merge [(''port'', JNum 36666), (''address'', JStr ''127.0.0.1'')] [[(''port'', JNum 36667)]] =
     Some [(''port'', JNum 36667), (''address'', JStr ''127.0.0.1'')] \<and>
   map_of [(''port'', JNum 36667), (''address'', JStr ''0.0.0.0''), (''nethash'', JStr ''H1'')] ''port'' =
     Some (JNum 36667) \<and>
   \<not> truthy (listening_port (sample_env (\<lambda>appConfig. True)) no_options) \<and>
   map_of (commandLineConfig (sample_env (\<lambda>appConfig. True)) no_options sample_sources) ''port'' =
     Some JNull \<and>
   lodash_merge (defaultConfig sample_sources) [customConfig sample_sources] =
     Some [(''port'', JNum 36667), (''forging'', JObj [(''force'', JBool True)])]"
proof -
  have d: "distinct (map fst cli_null_port)" by (simp add: cli_null_port_def)
  have k: "map_of cli_null_port ''port'' = Some JNull" by (simp add: cli_null_port_def)
  have c: "cleanDeep default_options (JObj cli_null_port) = JObj [(''address'', JStr ''0.0.0.0'')]"
    by (simp add: cli_null_port_def default_options_def iteratee_def)
  have m: "lodash_merge [(''port'', JNum 36666), (''address'', JStr ''127.0.0.1'')]
     [[(''port'', JNum 36667)], [(''nethash'', JStr ''H1'')], [(''address'', JStr ''0.0.0.0'')]] =
     Some [(''port'', JNum 36667), (''address'', JStr ''0.0.0.0''), (''nethash'', JStr ''H1'')]"
    by (simp add: merge_eval)
  have f: "lodash_merge (defaultConfig sample_sources) [customConfig sample_sources] =
     Some [(''port'', JNum 36667), (''forging'', JObj [(''force'', JBool True)])]"
    by (simp add: sample_sources_def merge_eval)
  from pruned_cli_never_overrides [OF d k _ c m, of "sample_env (\<lambda>appConfig. True)"
      sample_package no_options sample_sources "[]"]
    sample_merge_no_flag [of "\<lambda>appConfig. True"] sample_no_port [of "\<lambda>appConfig. True"]
    d k c m f
  show ?thesis by (simp add: merge_eval)
qed

section \<open>The pruner does not write to its input\<close>

lemma iterateeH_length [simp]: "length (iterateeH opts h r v key) = length h"
  by (simp add: iterateeH_def split: cell.splits)

lemma iterateeH_other: "b \<noteq> r \<Longrightarrow> iterateeH opts h r v key ! b = h ! b"
  by (simp add: iterateeH_def split: cell.splits)

lemma forOwnCharsH_length [simp]: "length (forOwnCharsH opts h entries r) = length h"
  by (induction entries arbitrary: h) auto

lemma forOwnCharsH_other: "b \<noteq> r \<Longrightarrow> forOwnCharsH opts h entries r ! b = h ! b"
  by (induction entries arbitrary: h) (auto simp: iterateeH_other)

lemma unchanged_nth: "unchanged h h' \<Longrightarrow> b < length h \<Longrightarrow> h' ! b = h ! b"
  by (metis nth_take unchanged_def)

lemma unchangedI:
  "length h \<le> length h' \<Longrightarrow> (\<And>b. b < length h \<Longrightarrow> h' ! b = h ! b) \<Longrightarrow> unchanged h h'"
  unfolding unchanged_def by (intro conjI nth_equalityI) simp_all

lemma unchanged_refl: "unchanged h h"
  by (simp add: unchanged_def)

lemma recurseH_unchanged:
  "returns_fresh opts n \<Longrightarrow> recurseH opts n h v = Some (v', h') \<Longrightarrow> unchanged h h'"
  by (cases v) (auto simp: returns_fresh_def unchanged_refl)

lemma arrayEachH_touches:
  "returns_fresh opts n \<Longrightarrow> arrayEachH opts n h a indices r = Some h' \<Longrightarrow>
   length h \<le> length h' \<and> (\<forall>b < length h. b \<noteq> r \<longrightarrow> h' ! b = h ! b)"
proof (induction indices arbitrary: h)
  case Nil
  then show ?case by simp
next
  case (Cons i indices)
  from Cons.prems(2) obtain v h1 where rec: "recurseH opts n h (element h a i) = Some (v, h1)"
    and rest: "arrayEachH opts n (iterateeH opts h1 r v (show_nat i)) a indices r = Some h'"
    by (auto split: option.splits)
  from recurseH_unchanged [OF Cons.prems(1) rec] have u: "unchanged h h1" .
  from Cons.IH [OF Cons.prems(1) rest] have
    l: "length h1 \<le> length h'" and
    o: "\<forall>b < length h1. b \<noteq> r \<longrightarrow> h' ! b = iterateeH opts h1 r v (show_nat i) ! b"
    by simp_all
  from u l have "length h \<le> length h'" by (simp add: unchanged_def)
  moreover have "h' ! b = h ! b" if "b < length h" and "b \<noteq> r" for b
  proof -
    from that u have "b < length h1" by (simp add: unchanged_def)
    with o that have "h' ! b = h1 ! b" by (simp add: iterateeH_other)
    with unchanged_nth [OF u that(1)] show ?thesis by simp
  qed
  ultimately show ?case by blast
qed

lemma baseForOwnH_touches:
  "returns_fresh opts n \<Longrightarrow> baseForOwnH opts n h a keys r = Some h' \<Longrightarrow>
   length h \<le> length h' \<and> (\<forall>b < length h. b \<noteq> r \<longrightarrow> h' ! b = h ! b)"
proof (induction keys arbitrary: h)
  case Nil
  then show ?case by simp
next
  case (Cons key keys)
  from Cons.prems(2) obtain v h1 where rec: "recurseH opts n h (property h a key) = Some (v, h1)"
    and rest: "baseForOwnH opts n (iterateeH opts h1 r v key) a keys r = Some h'"
    by (auto split: option.splits)
  from recurseH_unchanged [OF Cons.prems(1) rec] have u: "unchanged h h1" .
  from Cons.IH [OF Cons.prems(1) rest] have
    l: "length h1 \<le> length h'" and
    o: "\<forall>b < length h1. b \<noteq> r \<longrightarrow> h' ! b = iterateeH opts h1 r v key ! b"
    by simp_all
  from u l have "length h \<le> length h'" by (simp add: unchanged_def)
  moreover have "h' ! b = h ! b" if "b < length h" and "b \<noteq> r" for b
  proof -
    from that u have "b < length h1" by (simp add: unchanged_def)
    with o that have "h' ! b = h1 ! b" by (simp add: iterateeH_other)
    with unchanged_nth [OF u that(1)] show ?thesis by simp
  qed
  ultimately show ?case by blast
qed

lemma accumulator_unchanged:
  assumes "length (h @ [c]) \<le> length h'"
    and "\<forall>b < length (h @ [c]). b \<noteq> length h \<longrightarrow> h' ! b = (h @ [c]) ! b"
  shows "length h < length h' \<and> unchanged h h'"
proof -
  from assms(1) have l: "length h < length h'" by simp
  have "h' ! b = h ! b" if "b < length h" for b
    using assms(2) that by (simp add: nth_append)
  with l show ?thesis by (simp add: unchangedI)
qed

lemma cleanDeepH_returns_fresh: "returns_fresh opts n"
proof (induction n)
  case 0
  show ?case by (simp add: returns_fresh_def)
next
  case (Suc n)
  show ?case unfolding returns_fresh_def
  proof (intro allI impI)
    fix h v v' h'
    assume r: "cleanDeepH opts (Suc n) h v = Some (v', h')"
    show "v' = HRef (length h) \<and> length h < length h' \<and> unchanged h h'"
    proof (cases v)
      case (HRef a)
      show ?thesis
      proof (cases "cell_at h a")
        case (ArrCell xs)
        with r HRef have v': "v' = HRef (length h)" and
          loop: "arrayEachH opts n (h @ [ArrCell []]) a [0..<length xs] (length h) = Some h'"
          by auto
        from arrayEachH_touches [OF Suc loop] accumulator_unchanged [of h "ArrCell []" h'] v'
        show ?thesis by blast
      next
        case (ObjCell kvs)
        with r HRef have v': "v' = HRef (length h)" and
          loop: "baseForOwnH opts n (h @ [ObjCell []]) a (map fst kvs) (length h) = Some h'"
          by auto
        from baseForOwnH_touches [OF Suc loop] accumulator_unchanged [of h "ObjCell []" h'] v'
        show ?thesis by blast
      qed
    next
      case (HStr s)
      with r have v': "v' = HRef (length h)" and
        h': "h' = forOwnCharsH opts (h @ [ObjCell []])
             (zip (map show_nat [0..<length s]) (map (\<lambda>c. HStr [c]) s)) (length h)"
        by auto
      have "unchanged h h'"
        by (rule unchangedI) (simp_all add: h' forOwnCharsH_other nth_append)
      with v' h' show ?thesis by simp
    qed (use r in \<open>auto simp: unchanged_def\<close>)
  qed
qed

section \<open>The pruner builds a new structure\<close>

lemma represents_mono:
  "represents A h v x \<Longrightarrow> A \<subseteq> B \<Longrightarrow>
   (\<And>a. a \<in> A \<Longrightarrow> a < length h \<Longrightarrow> a < length h' \<and> h' ! a = h ! a) \<Longrightarrow>
   represents B h' v x"
proof (induction x arbitrary: v)
  case (JArr ys)
  from JArr.prems(1) obtain a xs where v: "v = HRef a" and a: "a \<in> A" "a < length h"
    and c: "h ! a = ArrCell xs" and l: "list_all2 (represents A h) xs ys"
    by (auto split: hval.splits cell.splits)
  have "list_all2 (represents B h') xs ys"
    using l
  proof (rule list.rel_mono_strong)
    fix x y assume "represents A h x y" and "y \<in> set ys"
    then show "represents B h' x y"
      using JArr.IH [of y x] JArr.prems(2,3) by blast
  qed
  with v a c JArr.prems(2,3) show ?case by auto
next
  case (JObj kvs')
  from JObj.prems(1) obtain a kvs where v: "v = HRef a" and a: "a \<in> A" "a < length h"
    and c: "h ! a = ObjCell kvs" and d: "distinct (map fst kvs)" and k: "map fst kvs = map fst kvs'"
    and l: "list_all2 (represents A h) (map snd kvs) (map snd kvs')"
    by (auto split: hval.splits cell.splits)
  have "list_all2 (represents B h') (map snd kvs) (map snd kvs')"
    using l
  proof (rule list.rel_mono_strong)
    fix x y assume r: "represents A h x y"
    assume "y \<in> set (map snd kvs')"
    then obtain key where "(key, y) \<in> set kvs'" by auto
    then show "represents B h' x y"
      using JObj.IH [of "(key, y)" y x] r JObj.prems(2,3) by auto
  qed
  with v a c d k JObj.prems(2,3) show ?case by auto
qed simp_all

lemma represents_transfer:
  assumes "represents A h v x" and "A \<subseteq> B"
    and "\<forall>a \<in> A. a < length h \<longrightarrow> a < length h' \<and> h' ! a = h ! a"
  shows "represents B h' v x"
  using assms(1,2) by (rule represents_mono) (use assms(3) in blast)

lemma list_all2_represents_transfer:
  assumes "list_all2 (represents A h) xs ys" and "A \<subseteq> B"
    and "\<forall>a \<in> A. a < length h \<longrightarrow> a < length h' \<and> h' ! a = h ! a"
  shows "list_all2 (represents B h') xs ys"
  using assms(1)
proof (rule list_all2_mono)
  fix u w assume "represents A h u w"
  then show "represents B h' u w" using assms(2,3) by (rule represents_transfer)
qed

lemma refers_to_empty_obj:
  "represents B h v y \<Longrightarrow> refers_to h v (ObjCell []) \<longleftrightarrow> y = JObj []"
  by (cases y) (auto simp: cell_at_def split: hval.splits cell.splits)

lemma refers_to_empty_arr:
  "represents B h v y \<Longrightarrow> refers_to h v (ArrCell []) \<longleftrightarrow> y = JArr []"
  by (cases y) (auto simp: cell_at_def split: hval.splits cell.splits)

lemma represents_primitive:
  "represents B h v y \<Longrightarrow>
   (v = HStr [] \<longleftrightarrow> y = JStr []) \<and> (v = HNull \<longleftrightarrow> y = JNull) \<and>
   (v = HUndefined \<longleftrightarrow> y = JUndefined)"
  by (cases y) (auto split: hval.splits)

lemma iterateeH_represents:
  assumes "represents B h v y"
  shows "iterateeH opts h r v key =
     (if empty_shape opts y then h
      else (case cell_at h r of
              ArrCell acc \<Rightarrow> h[r := ArrCell (acc @ [v])]
            | ObjCell acc \<Rightarrow>
                if key = ''__proto__'' then h else h[r := ObjCell (set_prop acc key v)]))"
  using refers_to_empty_obj [OF assms] refers_to_empty_arr [OF assms]
    represents_primitive [OF assms]
  by (simp add: iterateeH_def empty_shape_def)

lemma array_loop:
  assumes IH: "\<And>y h v. y \<in> set ysuf \<Longrightarrow> represents {..<length h} h v y \<Longrightarrow> prunes opts h v y"
    and a: "a < L" and L: "L < length hc"
    and cell: "hc ! a = ArrCell (pre @ suf)"
    and input: "list_all2 (represents {..<L} hc) suf ysuf"
    and acc: "hc ! L = ArrCell acc" "list_all2 (represents {Suc L..<length hc} hc) acc accv"
  shows "\<exists>n h' acc' accv'.
      (\<forall>m \<ge> n. arrayEachH opts m hc a [length pre..<length pre + length suf] L = Some h') \<and>
      length hc \<le> length h' \<and> (\<forall>b < L. h' ! b = hc ! b) \<and>
      h' ! L = ArrCell acc' \<and> arrayEach opts i ysuf (JArr accv) = JArr accv' \<and>
      list_all2 (represents {Suc L..<length h'} h') acc' accv'"
  using assms
proof (induction suf arbitrary: pre ysuf hc acc accv i)
  case Nil
  then show ?case by auto
next
  case (Cons x suf)
  from Cons.prems(5) obtain y ysuf' where ysuf: "ysuf = y # ysuf'"
    and xy: "represents {..<L} hc x y" and rest: "list_all2 (represents {..<L} hc) suf ysuf'"
    by (auto simp: list_all2_Cons1)
  note a = Cons.prems(2) and L = Cons.prems(3) and cell = Cons.prems(4)
  have el: "element hc a (length pre) = x"
    using a L cell by (simp add: element_def cell_at_def)
  have "represents {..<length hc} hc x y"
    using xy by (rule represents_transfer) (use L in auto)
  with Cons.prems(1) [of y hc x] ysuf have "prunes opts hc x y" by simp
  then obtain n1 v' h1 where n1: "\<forall>m \<ge> n1. recurseH opts m hc x = Some (v', h1)"
    and u: "unchanged hc h1" and v': "represents {length hc..<length h1} h1 v' (recurse opts y)"
    unfolding prunes_def by blast
  from u have len1: "length hc \<le> length h1" by (simp add: unchanged_def)
  have same1: "h1 ! b = hc ! b" if "b < length hc" for b
    using unchanged_nth [OF u that] .
  define skip where "skip = empty_shape opts (recurse opts y)"
  define h2 where "h2 = iterateeH opts h1 L v' (show_nat (length pre))"
  define acc2 where "acc2 = (if skip then acc else acc @ [v'])"
  define accv2 where "accv2 = (if skip then accv else accv @ [recurse opts y])"
  have cellL1: "cell_at h1 L = ArrCell acc"
    using L len1 same1 [of L] Cons.prems(6) by (simp add: cell_at_def)
  have h2: "h2 = (if skip then h1 else h1[L := ArrCell (acc @ [v'])])"
    unfolding h2_def skip_def using iterateeH_represents [OF v'] cellL1 by simp
  have len2: "length h2 = length h1" by (simp add: h2_def)
  have other2: "h2 ! b = h1 ! b" if "b \<noteq> L" for b
    using that by (simp add: h2_def iterateeH_other)
  have L2: "L < length h2" using L len1 len2 by simp
  have cell2: "h2 ! a = ArrCell ((pre @ [x]) @ suf)"
    using a L cell other2 [of a] same1 [of a] by simp
  have keep: "b < length h2 \<and> h2 ! b = hc ! b" if "b < length hc" and "b \<noteq> L" for b
  proof -
    from that(1) len1 len2 have "b < length h2" by simp
    moreover from other2 [OF that(2)] same1 [OF that(1)] have "h2 ! b = hc ! b" by simp
    ultimately show ?thesis by simp
  qed
  have input2: "list_all2 (represents {..<L} h2) suf ysuf'"
    using rest
  proof (rule list_all2_represents_transfer)
    show "\<forall>b \<in> {..<L}. b < length hc \<longrightarrow> b < length h2 \<and> h2 ! b = hc ! b"
      using keep by simp
  qed simp
  have accL2: "h2 ! L = ArrCell acc2"
    using cellL1 L len1 by (auto simp: h2 acc2_def cell_at_def)
  have old: "list_all2 (represents {Suc L..<length h2} h2) acc accv"
    using Cons.prems(7)
  proof (rule list_all2_represents_transfer)
    show "{Suc L..<length hc} \<subseteq> {Suc L..<length h2}" using len1 len2 by simp
    show "\<forall>b \<in> {Suc L..<length hc}. b < length hc \<longrightarrow> b < length h2 \<and> h2 ! b = hc ! b"
      using keep by simp
  qed
  have new: "represents {Suc L..<length h2} h2 v' (recurse opts y)"
    using v'
  proof (rule represents_transfer)
    show "{length hc..<length h1} \<subseteq> {Suc L..<length h2}" using L len2 by auto
    show "\<forall>b \<in> {length hc..<length h1}. b < length h1 \<longrightarrow> b < length h2 \<and> h2 ! b = h1 ! b"
      using L len2 other2 by simp
  qed
  have acc2: "list_all2 (represents {Suc L..<length h2} h2) acc2 accv2"
    using old new by (simp add: acc2_def accv2_def list_all2_appendI)
  have IH': "\<And>y h v. y \<in> set ysuf' \<Longrightarrow> represents {..<length h} h v y \<Longrightarrow> prunes opts h v y"
    using Cons.prems(1) ysuf by simp
  from Cons.IH [OF IH' a L2 cell2 input2 accL2 acc2, of "Suc i"]
  obtain n2 h' acc' accv' where
    n2: "\<forall>m \<ge> n2. arrayEachH opts m h2 a [length (pre @ [x])..<length (pre @ [x]) + length suf] L = Some h'"
    and len': "length h2 \<le> length h'" and below: "\<forall>b < L. h' ! b = h2 ! b"
    and res: "h' ! L = ArrCell acc'" and pure: "arrayEach opts (Suc i) ysuf' (JArr accv2) = JArr accv'"
    and rel: "list_all2 (represents {Suc L..<length h'} h') acc' accv'"
    by blast
  have idx: "[length pre..<length pre + length (x # suf)] =
      length pre # [length (pre @ [x])..<length (pre @ [x]) + length suf]"
    using upt_conv_Cons [of "length pre" "length pre + Suc (length suf)"] by simp
  have run: "\<forall>m \<ge> max n1 n2. arrayEachH opts m hc a [length pre..<length pre + length (x # suf)] L = Some h'"
  proof (intro allI impI)
    fix m assume m: "max n1 n2 \<le> m"
    with n1 have "recurseH opts m hc (element hc a (length pre)) = Some (v', h1)"
      by (simp add: el)
    moreover from m n2 have
      "arrayEachH opts m h2 a [length (pre @ [x])..<length (pre @ [x]) + length suf] L = Some h'"
      by simp
    ultimately show "arrayEachH opts m hc a [length pre..<length pre + length (x # suf)] L = Some h'"
      unfolding idx by (simp add: h2_def)
  qed
  have pure': "arrayEach opts i ysuf (JArr accv) = JArr accv'"
    using pure by (auto simp: ysuf iteratee_arr accv2_def skip_def split: if_splits)
  have below': "\<forall>b < L. h' ! b = hc ! b"
  proof (intro allI impI)
    fix b assume b: "b < L"
    with L keep [of b] below show "h' ! b = hc ! b" by simp
  qed
  from run len' len1 len2 below' res pure' rel show ?case
    by (intro exI [of _ "max n1 n2"] exI [of _ h'] exI [of _ acc'] exI [of _ accv']) simp
qed

lemma set_prop_related:
  "map fst acc = map fst accv \<Longrightarrow> list_all2 R (map snd acc) (map snd accv) \<Longrightarrow> R v y \<Longrightarrow>
   map fst (set_prop acc key v) = map fst (set_prop accv key y) \<and>
   list_all2 R (map snd (set_prop acc key v)) (map snd (set_prop accv key y))"
proof (induction acc arbitrary: accv)
  case Nil
  then show ?case by simp
next
  case (Cons p acc)
  obtain k w where p: "p = (k, w)" by (cases p)
  from Cons.prems(1) p obtain w' accv' where accv: "accv = (k, w') # accv'"
    by (cases accv) auto
  from Cons.prems p accv Cons.IH [of accv'] show ?case by auto
qed

lemma map_of_at_suffix:
  "distinct (map fst (pre @ (key, x) # suf)) \<Longrightarrow> map_of (pre @ (key, x) # suf) key = Some x"
  by (induction pre) auto

lemma object_loop:
  assumes IH: "\<And>y h v. y \<in> set (map snd ysuf) \<Longrightarrow> represents {..<length h} h v y \<Longrightarrow>
      prunes opts h v y"
    and a: "a < L" and L: "L < length hc"
    and cell: "hc ! a = ObjCell (pre @ suf)" "distinct (map fst (pre @ suf))"
    and input: "map fst suf = map fst ysuf"
      "list_all2 (represents {..<L} hc) (map snd suf) (map snd ysuf)"
    and acc: "hc ! L = ObjCell acc" "distinct (map fst acc)" "map fst acc = map fst accv"
      "list_all2 (represents {Suc L..<length hc} hc) (map snd acc) (map snd accv)"
  shows "\<exists>n h' acc' accv'.
      (\<forall>m \<ge> n. baseForOwnH opts m hc a (map fst suf) L = Some h') \<and>
      length hc \<le> length h' \<and> (\<forall>b < L. h' ! b = hc ! b) \<and>
      h' ! L = ObjCell acc' \<and> baseForOwn opts ysuf (JObj accv) = JObj accv' \<and>
      distinct (map fst acc') \<and> map fst acc' = map fst accv' \<and>
      list_all2 (represents {Suc L..<length h'} h') (map snd acc') (map snd accv')"
  using assms
proof (induction suf arbitrary: pre ysuf hc acc accv)
  case Nil
  then have "ysuf = []" by simp
  with Nil.prems show ?case
    by (intro exI [of _ 0] exI [of _ hc] exI [of _ acc] exI [of _ accv]) simp
next
  case (Cons p suf)
  obtain key x where p: "p = (key, x)" by (cases p)
  from Cons.prems(6,7) p obtain y ysuf' where ysuf: "ysuf = (key, y) # ysuf'"
    and xy: "represents {..<L} hc x y" and keys: "map fst suf = map fst ysuf'"
    and rest: "list_all2 (represents {..<L} hc) (map snd suf) (map snd ysuf')"
    by (cases ysuf) auto
  note a = Cons.prems(2) and L = Cons.prems(3) and cell = Cons.prems(4) and d = Cons.prems(5)
  have el: "property hc a key = x"
    using a L cell d map_of_at_suffix [of pre key x suf]
    by (simp add: property_def cell_at_def p)
  have "represents {..<length hc} hc x y"
    using xy by (rule represents_transfer) (use L in auto)
  with Cons.prems(1) [of y hc x] ysuf have "prunes opts hc x y" by simp
  then obtain n1 v' h1 where n1: "\<forall>m \<ge> n1. recurseH opts m hc x = Some (v', h1)"
    and u: "unchanged hc h1" and v': "represents {length hc..<length h1} h1 v' (recurse opts y)"
    unfolding prunes_def by blast
  from u have len1: "length hc \<le> length h1" by (simp add: unchanged_def)
  have same1: "h1 ! b = hc ! b" if "b < length hc" for b
    using unchanged_nth [OF u that] .
  define skip where "skip = (key = ''__proto__'' \<or> empty_shape opts (recurse opts y))"
  define h2 where "h2 = iterateeH opts h1 L v' key"
  define acc2 where "acc2 = (if skip then acc else set_prop acc key v')"
  define accv2 where "accv2 = (if skip then accv else set_prop accv key (recurse opts y))"
  have cellL1: "cell_at h1 L = ObjCell acc"
    using L len1 same1 [of L] Cons.prems(8) by (simp add: cell_at_def)
  have h2: "h2 = (if skip then h1 else h1[L := ObjCell (set_prop acc key v')])"
    unfolding h2_def skip_def using iterateeH_represents [OF v'] cellL1 by simp
  have len2: "length h2 = length h1" by (simp add: h2_def)
  have other2: "h2 ! b = h1 ! b" if "b \<noteq> L" for b
    using that by (simp add: h2_def iterateeH_other)
  have L2: "L < length h2" using L len1 len2 by simp
  have cell2: "h2 ! a = ObjCell ((pre @ [p]) @ suf)"
    using a L cell other2 [of a] same1 [of a] by simp
  have d2: "distinct (map fst ((pre @ [p]) @ suf))" using d by simp
  have keep: "b < length h2 \<and> h2 ! b = hc ! b" if "b < length hc" and "b \<noteq> L" for b
  proof -
    from that(1) len1 len2 have "b < length h2" by simp
    moreover from other2 [OF that(2)] same1 [OF that(1)] have "h2 ! b = hc ! b" by simp
    ultimately show ?thesis by simp
  qed
  have input2: "list_all2 (represents {..<L} h2) (map snd suf) (map snd ysuf')"
    using rest
  proof (rule list_all2_represents_transfer)
    show "\<forall>b \<in> {..<L}. b < length hc \<longrightarrow> b < length h2 \<and> h2 ! b = hc ! b"
      using keep by simp
  qed simp
  have accL2: "h2 ! L = ObjCell acc2"
    using cellL1 L len1 by (auto simp: h2 acc2_def cell_at_def)
  have dacc2: "distinct (map fst acc2)"
    using Cons.prems(9) by (simp add: acc2_def distinct_set_prop)
  have old: "list_all2 (represents {Suc L..<length h2} h2) (map snd acc) (map snd accv)"
    using Cons.prems(11)
  proof (rule list_all2_represents_transfer)
    show "{Suc L..<length hc} \<subseteq> {Suc L..<length h2}" using len1 len2 by simp
    show "\<forall>b \<in> {Suc L..<length hc}. b < length hc \<longrightarrow> b < length h2 \<and> h2 ! b = hc ! b"
      using keep by simp
  qed
  have new: "represents {Suc L..<length h2} h2 v' (recurse opts y)"
    using v'
  proof (rule represents_transfer)
    show "{length hc..<length h1} \<subseteq> {Suc L..<length h2}" using L len2 by auto
    show "\<forall>b \<in> {length hc..<length h1}. b < length h1 \<longrightarrow> b < length h2 \<and> h2 ! b = h1 ! b"
      using L len2 other2 by simp
  qed
  have acc2: "map fst acc2 = map fst accv2 \<and>
      list_all2 (represents {Suc L..<length h2} h2) (map snd acc2) (map snd accv2)"
    using set_prop_related [OF Cons.prems(10) old new, of key] Cons.prems(10) old
    by (simp add: acc2_def accv2_def)
  have IH': "\<And>y h v. y \<in> set (map snd ysuf') \<Longrightarrow> represents {..<length h} h v y \<Longrightarrow>
      prunes opts h v y"
    using Cons.prems(1) ysuf by simp
  from acc2 have k2: "map fst acc2 = map fst accv2"
    and r2: "list_all2 (represents {Suc L..<length h2} h2) (map snd acc2) (map snd accv2)"
    by simp_all
  from Cons.IH [OF IH' a L2 cell2 d2 keys input2 accL2 dacc2 k2 r2]
  obtain n2 h' acc' accv' where
    n2: "\<forall>m \<ge> n2. baseForOwnH opts m h2 a (map fst suf) L = Some h'"
    and len': "length h2 \<le> length h'" and below: "\<forall>b < L. h' ! b = h2 ! b"
    and res: "h' ! L = ObjCell acc'" and pure: "baseForOwn opts ysuf' (JObj accv2) = JObj accv'"
    and dres: "distinct (map fst acc')" and kres: "map fst acc' = map fst accv'"
    and rel: "list_all2 (represents {Suc L..<length h'} h') (map snd acc') (map snd accv')"
    by blast
  have run: "\<forall>m \<ge> max n1 n2. baseForOwnH opts m hc a (map fst (p # suf)) L = Some h'"
  proof (intro allI impI)
    fix m assume m: "max n1 n2 \<le> m"
    with n1 have "recurseH opts m hc (property hc a key) = Some (v', h1)"
      by (simp add: el)
    moreover from m n2 have "baseForOwnH opts m h2 a (map fst suf) L = Some h'"
      by simp
    ultimately show "baseForOwnH opts m hc a (map fst (p # suf)) L = Some h'"
      by (simp add: h2_def p)
  qed
  have pure': "baseForOwn opts ysuf (JObj accv) = JObj accv'"
    using pure by (auto simp: ysuf iteratee_obj accv2_def skip_def split: if_splits)
  have below': "\<forall>b < L. h' ! b = hc ! b"
  proof (intro allI impI)
    fix b assume b: "b < L"
    with L keep [of b] below show "h' ! b = hc ! b" by simp
  qed
  from run len' len1 len2 below' res pure' dres kres rel show ?case
    by (intro exI [of _ "max n1 n2"] exI [of _ h'] exI [of _ acc'] exI [of _ accv']) simp
qed

lemma prunes_primitive:
  "recurse opts x = x \<Longrightarrow> (\<And>n. recurseH opts n h v = Some (v, h)) \<Longrightarrow>
   represents {} h v x \<Longrightarrow> prunes opts h v x"
  unfolding prunes_def
  by (intro exI [of _ 0] exI [of _ v] exI [of _ h]) (simp add: unchanged_refl)

lemma represents_prunes: "represents {..<length h} h v x \<Longrightarrow> prunes opts h v x"
proof (induction x arbitrary: h v)
  case (JArr ys)
  define L where "L = length h"
  define hc where "hc = h @ [ArrCell []]"
  from JArr.prems obtain a xs where v: "v = HRef a" and a: "a < L"
    and c: "h ! a = ArrCell xs" and l: "list_all2 (represents {..<L} h) xs ys"
    by (auto simp: L_def split: hval.splits cell.splits)
  have L: "L < length hc" by (simp add: L_def hc_def)
  have cell: "hc ! a = ArrCell ([] @ xs)" using a c by (simp add: hc_def L_def nth_append)
  have input: "list_all2 (represents {..<L} hc) xs ys"
    using l by (rule list_all2_represents_transfer) (simp_all add: hc_def nth_append)
  have accL: "hc ! L = ArrCell []" by (simp add: hc_def L_def)
  have acc: "list_all2 (represents {Suc L..<length hc} hc) [] []" by simp
  from array_loop [of ys opts a L hc "[]" xs "[]" "[]" 0, OF JArr.IH a L cell input accL acc]
  obtain n h' acc' accv' where
    run: "\<forall>m \<ge> n. arrayEachH opts m hc a [0..<length xs] L = Some h'"
    and len: "length hc \<le> length h'" and below: "\<forall>b < L. h' ! b = hc ! b"
    and res: "h' ! L = ArrCell acc'" and pure: "arrayEach opts 0 ys (JArr []) = JArr accv'"
    and rel: "list_all2 (represents {Suc L..<length h'} h') acc' accv'"
    by auto
  have ca: "cell_at h a = ArrCell xs" using a c by (simp add: cell_at_def L_def)
  have "\<forall>m \<ge> Suc n. recurseH opts m h v = Some (HRef L, h')"
  proof (intro allI impI)
    fix m assume "Suc n \<le> m"
    then obtain k where m: "m = Suc k" and k: "n \<le> k" by (cases m) auto
    from run k have "arrayEachH opts k hc a [0..<length xs] L = Some h'" by simp
    then show "recurseH opts m h v = Some (HRef L, h')"
      by (simp add: m v ca hc_def L_def)
  qed
  moreover have "unchanged h h'"
  proof (rule unchangedI)
    show "length h \<le> length h'" using len by (simp add: hc_def)
    fix b assume "b < length h"
    with below show "h' ! b = h ! b" by (simp add: L_def hc_def nth_append)
  qed
  moreover have "represents {length h..<length h'} h' (HRef L) (recurse opts (JArr ys))"
  proof -
    have "list_all2 (represents {L..<length h'} h') acc' accv'"
      using rel by (rule list_all2_represents_transfer) auto
    with res pure L len show ?thesis by (simp add: L_def)
  qed
  ultimately show ?case unfolding prunes_def by blast
next
  case (JObj kvs')
  define L where "L = length h"
  define hc where "hc = h @ [ObjCell []]"
  from JObj.prems obtain a kvs where v: "v = HRef a" and a: "a < L"
    and c: "h ! a = ObjCell kvs" and d: "distinct (map fst kvs)"
    and k: "map fst kvs = map fst kvs'"
    and l: "list_all2 (represents {..<L} h) (map snd kvs) (map snd kvs')"
    by (auto simp: L_def split: hval.splits cell.splits)
  have IH: "prunes opts h v y" if "y \<in> set (map snd kvs')" and "represents {..<length h} h v y"
    for y h v
  proof -
    from that(1) obtain key where "(key, y) \<in> set kvs'" by auto
    then show ?thesis using JObj.IH [of "(key, y)" y h v] that(2) by simp
  qed
  have L: "L < length hc" by (simp add: L_def hc_def)
  have cell: "hc ! a = ObjCell ([] @ kvs)" using a c by (simp add: hc_def L_def nth_append)
  have dc: "distinct (map fst ([] @ kvs))" using d by simp
  have input: "list_all2 (represents {..<L} hc) (map snd kvs) (map snd kvs')"
    using l by (rule list_all2_represents_transfer) (simp_all add: hc_def nth_append)
  have accL: "hc ! L = ObjCell []" by (simp add: hc_def L_def)
  have acc: "list_all2 (represents {Suc L..<length hc} hc) (map snd []) (map snd [])" by simp
  from object_loop [of kvs' opts a L hc "[]" kvs "[]" "[]", OF IH a L cell dc k input accL _ _ acc]
  obtain n h' acc' accv' where
    run: "\<forall>m \<ge> n. baseForOwnH opts m hc a (map fst kvs) L = Some h'"
    and len: "length hc \<le> length h'" and below: "\<forall>b < L. h' ! b = hc ! b"
    and res: "h' ! L = ObjCell acc'" and pure: "baseForOwn opts kvs' (JObj []) = JObj accv'"
    and dres: "distinct (map fst acc')" and kres: "map fst acc' = map fst accv'"
    and rel: "list_all2 (represents {Suc L..<length h'} h') (map snd acc') (map snd accv')"
    by auto
  have ca: "cell_at h a = ObjCell kvs" using a c by (simp add: cell_at_def L_def)
  have "\<forall>m \<ge> Suc n. recurseH opts m h v = Some (HRef L, h')"
  proof (intro allI impI)
    fix m assume "Suc n \<le> m"
    then obtain k where m: "m = Suc k" and k: "n \<le> k" by (cases m) auto
    from run k have "baseForOwnH opts k hc a (map fst kvs) L = Some h'" by simp
    then show "recurseH opts m h v = Some (HRef L, h')"
      by (simp add: m v ca hc_def L_def)
  qed
  moreover have "unchanged h h'"
  proof (rule unchangedI)
    show "length h \<le> length h'" using len by (simp add: hc_def)
    fix b assume "b < length h"
    with below show "h' ! b = h ! b" by (simp add: L_def hc_def nth_append)
  qed
  moreover have "represents {length h..<length h'} h' (HRef L) (recurse opts (JObj kvs'))"
  proof -
    have "list_all2 (represents {L..<length h'} h') (map snd acc') (map snd accv')"
      using rel by (rule list_all2_represents_transfer) auto
    with res pure dres kres L len show ?thesis by (simp add: L_def)
  qed
  ultimately show ?case unfolding prunes_def by blast
qed (auto intro: prunes_primitive)

text \<open>
  Claim C8. On a store of mutable cells, whenever the pruner returns, every cell that
  existed at the call holds what it held (the input is unchanged) and the result is a
  reference to a cell allocated by the call. For an input that is a structure of arrays
  and plain objects in the store, the pruner returns with every large enough bound on the
  depth of its recursion, and the returned reference stands for the pruned value through
  cells allocated by the call only: the returned structure shares no cell with the input.
\<close>

theorem cleanDeep_never_mutates_its_input:
  "(cleanDeepH opts n h v = Some (v', h') \<longrightarrow>
      v' = HRef (length h) \<and> length h < length h' \<and> take (length h) h' = h) \<and>
   (represents {..<length h} h (HRef a) x \<longrightarrow>
      (\<exists>k h2. (\<forall>m \<ge> k. cleanDeepH opts m h (HRef a) = Some (HRef (length h), h2)) \<and>
         take (length h) h2 = h \<and>
         represents {length h..<length h2} h2 (HRef (length h)) (cleanDeep opts x)))"
proof (rule conjI)
  show "cleanDeepH opts n h v = Some (v', h') \<longrightarrow>
      v' = HRef (length h) \<and> length h < length h' \<and> take (length h) h' = h"
    using cleanDeepH_returns_fresh [of opts n]
    by (simp add: returns_fresh_def unchanged_def)
next
  show "represents {..<length h} h (HRef a) x \<longrightarrow>
      (\<exists>k h2. (\<forall>m \<ge> k. cleanDeepH opts m h (HRef a) = Some (HRef (length h), h2)) \<and>
         take (length h) h2 = h \<and>
         represents {length h..<length h2} h2 (HRef (length h)) (cleanDeep opts x))"
  proof
    assume r: "represents {..<length h} h (HRef a) x"
    then have x: "recurse opts x = cleanDeep opts x" by (cases x) simp_all
    from represents_prunes [OF r, of opts] obtain k v2 h2 where
      run: "\<forall>m \<ge> k. recurseH opts m h (HRef a) = Some (v2, h2)"
      and u: "unchanged h h2" and rep: "represents {length h..<length h2} h2 v2 (recurse opts x)"
      unfolding prunes_def by blast
    from run have "cleanDeepH opts k h (HRef a) = Some (v2, h2)" by simp
    with cleanDeepH_returns_fresh [of opts k] have "v2 = HRef (length h)"
      by (simp add: returns_fresh_def)
    with run u rep x show "\<exists>k h2. (\<forall>m \<ge> k. cleanDeepH opts m h (HRef a) = Some (HRef (length h), h2)) \<and>
         take (length h) h2 = h \<and>
         represents {length h..<length h2} h2 (HRef (length h)) (cleanDeep opts x)"
      by (intro exI [of _ k] exI [of _ h2]) (simp add: unchanged_def)
  qed
qed

lemma sample_store_pruned:
  "cleanDeepH default_options (Suc (Suc (Suc 0))) sample_store (HRef 0) =
     Some (HRef 3,
           sample_store @
           [ObjCell [(''peers'', HRef 5), (''coverage'', HBool False)],
            ObjCell [],
            ArrCell [HNum 0, HStr ''x''],
            ObjCell []])"
  by (simp add: sample_store_def default_options_def cell_at_def element_def property_def
      iterateeH_def upt_rec)

lemma sample_store_represents: "represents {..<length sample_store} sample_store (HRef 0) sample_value"
  by (simp add: sample_store_def sample_value_def)

theorem cleanDeep_never_mutates_its_input_witness:
  "represents {..<length sample_store} sample_store (HRef 0) sample_value \<and>
   cleanDeepH default_options (Suc (Suc (Suc 0))) sample_store (HRef 0) =
     Some (HRef 3,
           sample_store @
           [ObjCell [(''peers'', HRef 5), (''coverage'', HBool False)],
            ObjCell [],
            ArrCell [HNum 0, HStr ''x''],
            ObjCell []]) \<and>
   HRef 3 = HRef (length sample_store) \<and>
   take (length sample_store)
     (sample_store @
      [ObjCell [(''peers'', HRef 5), (''coverage'', HBool False)],
       ObjCell [],
       ArrCell [HNum 0, HStr ''x''],
       ObjCell []]) = sample_store \<and>
   (\<exists>k h2. (\<forall>m \<ge> k. cleanDeepH default_options m sample_store (HRef 0) =
        Some (HRef (length sample_store), h2)) \<and>
      take (length sample_store) h2 = sample_store \<and>
      represents {length sample_store..<length h2} h2 (HRef (length sample_store))
        (cleanDeep default_options sample_value))"
proof -
  note inst = cleanDeep_never_mutates_its_input [of default_options "Suc (Suc (Suc 0))" sample_store
      "HRef 0" "HRef 3" "sample_store @
           [ObjCell [(''peers'', HRef 5), (''coverage'', HBool False)],
            ObjCell [],
            ArrCell [HNum 0, HStr ''x''],
            ObjCell []]" 0 sample_value]
  from inst [THEN conjunct1, THEN mp, OF sample_store_pruned]
  have frame: "HRef 3 = HRef (length sample_store) \<and>
      take (length sample_store)
       (sample_store @
        [ObjCell [(''peers'', HRef 5), (''coverage'', HBool False)],
         ObjCell [],
         ArrCell [HNum 0, HStr ''x''],
         ObjCell []]) = sample_store"
    by simp
  from inst [THEN conjunct2, THEN mp, OF sample_store_represents]
  have returns: "\<exists>k h2. (\<forall>m \<ge> k. cleanDeepH default_options m sample_store (HRef 0) =
        Some (HRef (length sample_store), h2)) \<and>
      take (length sample_store) h2 = sample_store \<and>
      represents {length sample_store..<length h2} h2 (HRef (length sample_store))
        (cleanDeep default_options sample_value)" .
  from sample_store_represents sample_store_pruned frame returns show ?thesis
    by (intro conjI) (simp_all only: simp_thms)
qed

end
